theory Spec2Isabelle
  imports Complex_Main
begin

section \<open>Binary32 arithmetic\<close>

text \<open>
  A \<^verbatim>\<open>float\<close> is a binary32 value of IEEE 754: a finite number, an infinity or a NaN.
  Every operation computes the exact result and rounds it once to the nearest binary32
  number, ties to even, with gradual underflow; a result that rounds to \<open>2 ^ 128\<close> or beyond
  is an infinity. No product is fused with a sum and no intermediate result is kept in a
  wider format.

  The two zeros are one value and so are all NaNs. The engine never looks at the sign of a
  zero: its comparisons take the zeros as equal, and its only divisor is the running sum of
  \<^verbatim>\<open>softmax\<close>, which starts at \<open>+0\<close> and so is never \<open>-0\<close>. It never looks at the payload of a
  NaN.

  \<open>half_even\<close> rounds to the nearest integer, ties to even. The spacing of the binary32
  numbers around a non-zero \<open>x\<close> is \<open>2 powr ulp_exp x\<close>: 24 significant bits, and the
  spacing \<open>2 powr - 149\<close> of the subnormal numbers below \<open>2 powr - 126\<close>.
\<close>

datatype f32 = Fin real | PInf | NInf | NaN

definition half_even :: "real \<Rightarrow> int" where
  "half_even t =
     (if t - of_int \<lfloor>t\<rfloor> < 1 / 2 then \<lfloor>t\<rfloor>
      else if 1 / 2 < t - of_int \<lfloor>t\<rfloor> then \<lfloor>t\<rfloor> + 1
      else if even \<lfloor>t\<rfloor> then \<lfloor>t\<rfloor> else \<lfloor>t\<rfloor> + 1)"

definition ulp_exp :: "real \<Rightarrow> int" where
  "ulp_exp x = max \<lfloor>log 2 \<bar>x\<bar>\<rfloor> (- 126) - 23"

definition nearest :: "real \<Rightarrow> real" where
  "nearest x = of_int (half_even (x / 2 powr of_int (ulp_exp x))) * 2 powr of_int (ulp_exp x)"

definition rnd :: "real \<Rightarrow> f32" where
  "rnd x =
     (if x = 0 then Fin 0
      else if 2 ^ 128 \<le> \<bar>nearest x\<bar> then (if 0 < x then PInf else NInf)
      else Fin (nearest x))"

fun fneg :: "f32 \<Rightarrow> f32" where
  "fneg (Fin x) = Fin (- x)"
| "fneg PInf = NInf"
| "fneg NInf = PInf"
| "fneg NaN = NaN"

fun fadd :: "f32 \<Rightarrow> f32 \<Rightarrow> f32" where
  "fadd (Fin x) (Fin y) = rnd (x + y)"
| "fadd NaN b = NaN"
| "fadd a NaN = NaN"
| "fadd PInf NInf = NaN"
| "fadd NInf PInf = NaN"
| "fadd PInf b = PInf"
| "fadd a PInf = PInf"
| "fadd NInf b = NInf"
| "fadd a NInf = NInf"

definition fsub :: "f32 \<Rightarrow> f32 \<Rightarrow> f32" where
  "fsub a b = fadd a (fneg b)"

fun fmul :: "f32 \<Rightarrow> f32 \<Rightarrow> f32" where
  "fmul (Fin x) (Fin y) = rnd (x * y)"
| "fmul NaN b = NaN"
| "fmul a NaN = NaN"
| "fmul PInf (Fin y) = (if y = 0 then NaN else if 0 < y then PInf else NInf)"
| "fmul NInf (Fin y) = (if y = 0 then NaN else if 0 < y then NInf else PInf)"
| "fmul (Fin x) PInf = (if x = 0 then NaN else if 0 < x then PInf else NInf)"
| "fmul (Fin x) NInf = (if x = 0 then NaN else if 0 < x then NInf else PInf)"
| "fmul PInf PInf = PInf"
| "fmul PInf NInf = NInf"
| "fmul NInf PInf = NInf"
| "fmul NInf NInf = PInf"

text \<open>A zero divisor counts as the positive zero.\<close>

fun fdiv :: "f32 \<Rightarrow> f32 \<Rightarrow> f32" where
  "fdiv (Fin x) (Fin y) =
     (if y = 0 then (if x = 0 then NaN else if 0 < x then PInf else NInf) else rnd (x / y))"
| "fdiv NaN b = NaN"
| "fdiv a NaN = NaN"
| "fdiv (Fin x) PInf = Fin 0"
| "fdiv (Fin x) NInf = Fin 0"
| "fdiv PInf (Fin y) = (if 0 \<le> y then PInf else NInf)"
| "fdiv NInf (Fin y) = (if 0 \<le> y then NInf else PInf)"
| "fdiv PInf PInf = NaN"
| "fdiv PInf NInf = NaN"
| "fdiv NInf PInf = NaN"
| "fdiv NInf NInf = NaN"

text \<open>The comparison \<^verbatim>\<open>a > b\<close>: false as soon as one side is a NaN.\<close>

fun fgt :: "f32 \<Rightarrow> f32 \<Rightarrow> bool" where
  "fgt (Fin x) (Fin y) = (y < x)"
| "fgt NaN b = False"
| "fgt a NaN = False"
| "fgt PInf PInf = False"
| "fgt PInf b = True"
| "fgt a PInf = False"
| "fgt NInf b = False"
| "fgt a NInf = True"

definition flt :: "f32 \<Rightarrow> f32 \<Rightarrow> bool" where
  "flt a b = fgt b a"

fun fge :: "f32 \<Rightarrow> f32 \<Rightarrow> bool" where
  "fge (Fin x) (Fin y) = (y \<le> x)"
| "fge NaN b = False"
| "fge a NaN = False"
| "fge PInf b = True"
| "fge a NInf = True"
| "fge a PInf = False"
| "fge NInf b = False"

text \<open>
  \<^verbatim>\<open>expf\<close> is the C library's and no part of the repository: the engine takes it as a
  parameter. \<open>expf_ok\<close> is what the numerical theorems ask of it: \<open>expf(0) = 1\<close>,
  \<open>expf(-inf) = 0\<close>, and a result in \<open>[0, 1]\<close> for an argument that is not positive.
  \<open>expf_rn\<close> is the correctly rounded exponential, one such function.
\<close>

definition expf_ok :: "(f32 \<Rightarrow> f32) \<Rightarrow> bool" where
  "expf_ok expf =
     (expf (Fin 0) = Fin 1 \<and> expf NInf = Fin 0 \<and>
      (\<forall>y\<le>0. \<exists>e. expf (Fin y) = Fin e \<and> 0 \<le> e \<and> e \<le> 1))"

fun expf_rn :: "f32 \<Rightarrow> f32" where
  "expf_rn (Fin x) = rnd (exp x)"
| "expf_rn PInf = PInf"
| "expf_rn NInf = Fin 0"
| "expf_rn NaN = NaN"

fun finite32 :: "f32 \<Rightarrow> bool" where
  "finite32 (Fin x) = True"
| "finite32 a = False"

fun val :: "f32 \<Rightarrow> real" where
  "val (Fin x) = x"
| "val a = 0"

text \<open>A finite value is a binary32 number when rounding leaves it as it is.\<close>

fun representable :: "f32 \<Rightarrow> bool" where
  "representable (Fin x) = (rnd x = Fin x)"
| "representable a = True"

section \<open>Memory: arrays of float behind raw pointers\<close>

text \<open>
  The engine works on raw \<^verbatim>\<open>float*\<close> buffers that may alias. The store maps every array
  object (a block) to its cells; a pointer is a block together with an element offset, and
  pointer arithmetic moves the offset only. An access beyond the end of the object is
  undefined behaviour in C++ and is a fault of the model, whatever lies next to the object.
  \<^verbatim>\<open>size_t\<close> is \<open>nat\<close>: an index \<open>i * cols + j\<close> addresses a cell of an existing table and
  cannot wrap.
\<close>

type_synonym block = nat
type_synonym ptr = "block \<times> nat"
type_synonym heap = "block \<Rightarrow> f32 list"

datatype fault = OutOfBounds

definition idx :: "ptr \<Rightarrow> nat \<Rightarrow> ptr" where
  "idx p i = (fst p, snd p + i)"

definition load :: "heap \<Rightarrow> ptr \<Rightarrow> fault + f32" where
  "load h p = (if snd p < length (h (fst p)) then Inr (h (fst p) ! snd p) else Inl OutOfBounds)"

definition store :: "heap \<Rightarrow> ptr \<Rightarrow> f32 \<Rightarrow> fault + heap" where
  "store h p v =
     (if snd p < length (h (fst p)) then Inr (h(fst p := (h (fst p))[snd p := v]))
      else Inl OutOfBounds)"

text \<open>
  \<^verbatim>\<open>for (size_t i = lo; i < hi; ++i) body\<close>: the body maps the loop state to a fault or to
  the next state; neither the counter nor the bound is assigned in any body of the engine.
\<close>

fun loop :: "(nat \<Rightarrow> 's \<Rightarrow> fault + 's) \<Rightarrow> nat \<Rightarrow> nat \<Rightarrow> 's \<Rightarrow> fault + 's" where
  "loop body i 0 s = Inr s"
| "loop body i (Suc k) s =
     (case body i s of Inl e \<Rightarrow> Inl e | Inr s' \<Rightarrow> loop body (Suc i) k s')"

definition for_range :: "nat \<Rightarrow> nat \<Rightarrow> (nat \<Rightarrow> 's \<Rightarrow> fault + 's) \<Rightarrow> 's \<Rightarrow> fault + 's" where
  "for_range lo hi body s = loop body lo (hi - lo) s"

subsection \<open>Buffers as seen by a specification\<close>

definition cell :: "heap \<Rightarrow> ptr \<Rightarrow> f32" where
  "cell h p = h (fst p) ! snd p"

definition valid_buf :: "heap \<Rightarrow> ptr \<Rightarrow> nat \<Rightarrow> bool" where
  "valid_buf h p n = (snd p + n \<le> length (h (fst p)))"

definition read_buf :: "heap \<Rightarrow> ptr \<Rightarrow> nat \<Rightarrow> f32 list" where
  "read_buf h p n = take n (drop (snd p) (h (fst p)))"

definition write_buf :: "heap \<Rightarrow> ptr \<Rightarrow> f32 list \<Rightarrow> heap" where
  "write_buf h p xs =
     h(fst p := take (snd p) (h (fst p)) @ xs @ drop (snd p + length xs) (h (fst p)))"

definition separate :: "ptr \<Rightarrow> nat \<Rightarrow> ptr \<Rightarrow> nat \<Rightarrow> bool" where
  "separate p n q m = (fst p \<noteq> fst q \<or> snd p + n \<le> snd q \<or> snd q + m \<le> snd p)"

definition no_objects :: heap where
  \<comment> \<open>the memory in which no object has a cell\<close>
  "no_objects = (\<lambda>_. [])"

section \<open>Activation functions\<close>

definition relu :: "ptr \<Rightarrow> nat \<Rightarrow> heap \<Rightarrow> fault + heap" where
  "relu data sz h =
     for_range 0 sz (\<lambda>i h.
       case load h (idx data i) of Inl e \<Rightarrow> Inl e
       | Inr x \<Rightarrow> store h (idx data i) (if fgt x (Fin 0) then x else Fin 0)) h"

text \<open>
  \<^verbatim>\<open>softmax\<close> reads \<^verbatim>\<open>data[0]\<close> before any test of \<^verbatim>\<open>size\<close>; the running maximum and
  the running sum are the states of the first two loops.
\<close>

definition softmax :: "(f32 \<Rightarrow> f32) \<Rightarrow> ptr \<Rightarrow> nat \<Rightarrow> heap \<Rightarrow> fault + heap" where
  "softmax expf data sz h =
     (case load h (idx data 0) of Inl e \<Rightarrow> Inl e
      | Inr d0 \<Rightarrow>
     (case for_range 1 sz (\<lambda>i max_val.
             case load h (idx data i) of Inl e \<Rightarrow> Inl e
             | Inr x \<Rightarrow> Inr (if fgt x max_val then x else max_val)) d0 of Inl e \<Rightarrow> Inl e
      | Inr max_val \<Rightarrow>
     (case for_range 0 sz (\<lambda>i (h, ssum).
             case load h (idx data i) of Inl e \<Rightarrow> Inl e
             | Inr x \<Rightarrow>
            (case store h (idx data i) (expf (fsub x max_val)) of Inl e \<Rightarrow> Inl e
             | Inr h' \<Rightarrow> Inr (h', fadd ssum (expf (fsub x max_val))))) (h, Fin 0) of
        Inl e \<Rightarrow> Inl e
      | Inr (h1, ssum) \<Rightarrow>
        for_range 0 sz (\<lambda>i h.
             case load h (idx data i) of Inl e \<Rightarrow> Inl e
             | Inr x \<Rightarrow> store h (idx data i) (fdiv x ssum)) h1)))"

section \<open>Matrix operations\<close>

definition matvec_multiply :: "ptr \<Rightarrow> ptr \<Rightarrow> ptr \<Rightarrow> nat \<Rightarrow> nat \<Rightarrow> heap \<Rightarrow> fault + heap" where
  "matvec_multiply weights input output rows cols h =
     (case for_range 0 cols (\<lambda>j h. store h (idx output j) (Fin 0)) h of Inl e \<Rightarrow> Inl e
      | Inr h0 \<Rightarrow>
        for_range 0 rows (\<lambda>i h.
          for_range 0 cols (\<lambda>j h.
            case load h (idx output j) of Inl e \<Rightarrow> Inl e
            | Inr acc \<Rightarrow>
           (case load h (idx weights (i * cols + j)) of Inl e \<Rightarrow> Inl e
            | Inr w \<Rightarrow>
           (case load h (idx input i) of Inl e \<Rightarrow> Inl e
            | Inr x \<Rightarrow> store h (idx output j) (fadd acc (fmul w x))))) h) h0)"

definition vector_add :: "ptr \<Rightarrow> ptr \<Rightarrow> ptr \<Rightarrow> nat \<Rightarrow> heap \<Rightarrow> fault + heap" where
  "vector_add a b output sz h =
     for_range 0 sz (\<lambda>i h.
       case load h (idx a i) of Inl e \<Rightarrow> Inl e
       | Inr x \<Rightarrow>
      (case load h (idx b i) of Inl e \<Rightarrow> Inl e
       | Inr y \<Rightarrow> store h (idx output i) (fadd x y))) h"

definition dense_forward ::
  "ptr \<Rightarrow> ptr \<Rightarrow> ptr \<Rightarrow> ptr \<Rightarrow> nat \<Rightarrow> nat \<Rightarrow> heap \<Rightarrow> fault + heap" where
  "dense_forward input weights bias output input_size output_size h =
     (case matvec_multiply weights input output input_size output_size h of Inl e \<Rightarrow> Inl e
      | Inr h1 \<Rightarrow>
        for_range 0 output_size (\<lambda>i h.
          case load h (idx output i) of Inl e \<Rightarrow> Inl e
          | Inr acc \<Rightarrow>
         (case load h (idx bias i) of Inl e \<Rightarrow> Inl e
          | Inr b \<Rightarrow> store h (idx output i) (fadd acc b))) h1)"

section \<open>Neural network\<close>

text \<open>
  The fields of the class, without the trailing underscore of their names. The member array
  \<^verbatim>\<open>float layer1_output_[18]\<close> is an array object of its own: the field holds its block.
\<close>

record NeuralNetwork =
  layer1_weights :: ptr
  layer1_bias :: ptr
  layer1_input_size :: nat
  layer1_output_size :: nat
  layer2_weights :: ptr
  layer2_bias :: ptr
  layer2_input_size :: nat
  layer2_output_size :: nat
  layer1_output :: block

text \<open>The constructor runs on the storage of the new object, whose member array is \<open>this\<close>.\<close>

definition new_NeuralNetwork ::
  "block \<Rightarrow> ptr \<Rightarrow> ptr \<Rightarrow> nat \<Rightarrow> nat \<Rightarrow> ptr \<Rightarrow> ptr \<Rightarrow> nat \<Rightarrow> nat \<Rightarrow> heap
   \<Rightarrow> fault + (NeuralNetwork \<times> heap)" where
  "new_NeuralNetwork this l1_weights l1_bias l1_in l1_out l2_weights l2_bias l2_in l2_out h =
     (case for_range 0 18 (\<lambda>i h. store h (this, i) (Fin 0)) h of Inl e \<Rightarrow> Inl e
      | Inr h' \<Rightarrow>
        Inr (\<lparr>layer1_weights = l1_weights, layer1_bias = l1_bias,
              layer1_input_size = l1_in, layer1_output_size = l1_out,
              layer2_weights = l2_weights, layer2_bias = l2_bias,
              layer2_input_size = l2_in, layer2_output_size = l2_out,
              layer1_output = this\<rparr>, h'))"

definition predict ::
  "(f32 \<Rightarrow> f32) \<Rightarrow> NeuralNetwork \<Rightarrow> ptr \<Rightarrow> ptr \<Rightarrow> heap \<Rightarrow> fault + heap" where
  "predict expf nn input output h =
     (case dense_forward input (layer1_weights nn) (layer1_bias nn) (layer1_output nn, 0)
             (layer1_input_size nn) (layer1_output_size nn) h of Inl e \<Rightarrow> Inl e
      | Inr h1 \<Rightarrow>
     (case relu (layer1_output nn, 0) (layer1_output_size nn) h1 of Inl e \<Rightarrow> Inl e
      | Inr h2 \<Rightarrow>
     (case dense_forward (layer1_output nn, 0) (layer2_weights nn) (layer2_bias nn) output
             (layer2_input_size nn) (layer2_output_size nn) h2 of Inl e \<Rightarrow> Inl e
      | Inr h3 \<Rightarrow> softmax expf output (layer2_output_size nn) h3)))"

text \<open>
  \<^verbatim>\<open>predict_class\<close> has the local array \<^verbatim>\<open>float output[3]\<close>: a block of three cells that
  lives for the call. It is not initialised, so its first contents are any three values
  \<open>junk\<close>. The scan is over the three cells, whatever the size of layer 2.
\<close>

definition predict_class ::
  "(f32 \<Rightarrow> f32) \<Rightarrow> NeuralNetwork \<Rightarrow> ptr \<Rightarrow> block \<Rightarrow> f32 \<times> f32 \<times> f32 \<Rightarrow> heap
   \<Rightarrow> fault + (int \<times> heap)" where
  "predict_class expf nn input output junk h =
     (case predict expf nn input (output, 0)
             (h(output := [fst junk, fst (snd junk), snd (snd junk)])) of Inl e \<Rightarrow> Inl e
      | Inr h1 \<Rightarrow>
     (case load h1 (output, 0) of Inl e \<Rightarrow> Inl e
      | Inr p0 \<Rightarrow>
     (case for_range 1 3 (\<lambda>i (predicted_class, max_prob).
             case load h1 (output, i) of Inl e \<Rightarrow> Inl e
             | Inr x \<Rightarrow>
               Inr (if fgt x max_prob then (int i, x) else (predicted_class, max_prob)))
             (0, p0) of Inl e \<Rightarrow> Inl e
      | Inr (predicted_class, max_prob) \<Rightarrow> Inr (predicted_class, h1(output := [])))))"

section \<open>The operations as the specification words them\<close>

text \<open>
  The sums of the specification are the engine's: accumulated in binary32 from \<open>0.0f\<close> in
  the order of the index.
\<close>

definition relu_spec :: "f32 list \<Rightarrow> f32 list" where
  "relu_spec xs = map (\<lambda>x. if fgt x (Fin 0) then x else Fin 0) xs"

definition partial_dot :: "f32 list \<Rightarrow> f32 list \<Rightarrow> nat \<Rightarrow> nat \<Rightarrow> nat \<Rightarrow> f32" where
  \<comment> \<open>\<^verbatim>\<open>output[j]\<close> after \<open>i\<close> rounds of the outer loop of \<^verbatim>\<open>matvec_multiply\<close>\<close>
  "partial_dot weights input cols i j =
     foldl (\<lambda>acc k. fadd acc (fmul (weights ! (k * cols + j)) (input ! k))) (Fin 0) [0..<i]"

definition matvec_spec :: "f32 list \<Rightarrow> f32 list \<Rightarrow> nat \<Rightarrow> nat \<Rightarrow> f32 list" where
  "matvec_spec weights input rows cols = map (partial_dot weights input cols rows) [0..<cols]"

definition dense_spec :: "f32 list \<Rightarrow> f32 list \<Rightarrow> f32 list \<Rightarrow> nat \<Rightarrow> nat \<Rightarrow> f32 list" where
  "dense_spec weights bias input input_size output_size =
     map (\<lambda>j. fadd (partial_dot weights input output_size input_size j) (bias ! j))
       [0..<output_size]"

definition max_spec :: "f32 list \<Rightarrow> f32" where
  \<comment> \<open>the running maximum of \<^verbatim>\<open>softmax\<close>, started at the first element\<close>
  "max_spec xs = foldl (\<lambda>max_val x. if fgt x max_val then x else max_val) (hd xs) (tl xs)"

definition exps_spec :: "(f32 \<Rightarrow> f32) \<Rightarrow> f32 list \<Rightarrow> f32 list" where
  "exps_spec expf xs = map (\<lambda>x. expf (fsub x (max_spec xs))) xs"

definition fsum :: "f32 list \<Rightarrow> f32" where
  "fsum xs = foldl fadd (Fin 0) xs"

definition softmax_spec :: "(f32 \<Rightarrow> f32) \<Rightarrow> f32 list \<Rightarrow> f32 list" where
  "softmax_spec expf xs = map (\<lambda>e. fdiv e (fsum (exps_spec expf xs))) (exps_spec expf xs)"

text \<open>
  The caller's side of the contract of section 6 of the specification, as far as the store
  is concerned: every buffer has the cells its size asks for, the member array has its 18
  cells and is no part of any buffer of the caller, and the output buffer overlaps neither
  the table nor the bias of layer 2.
\<close>

definition net_layout :: "NeuralNetwork \<Rightarrow> ptr \<Rightarrow> ptr \<Rightarrow> heap \<Rightarrow> bool" where
  "net_layout nn input output h =
     (valid_buf h (layer1_weights nn) (layer1_input_size nn * layer1_output_size nn) \<and>
      valid_buf h (layer1_bias nn) (layer1_output_size nn) \<and>
      valid_buf h input (layer1_input_size nn) \<and>
      length (h (layer1_output nn)) = 18 \<and>
      valid_buf h (layer2_weights nn) (layer2_input_size nn * layer2_output_size nn) \<and>
      valid_buf h (layer2_bias nn) (layer2_output_size nn) \<and>
      valid_buf h output (layer2_output_size nn) \<and>
      layer1_output nn \<notin> {fst (layer1_weights nn), fst (layer1_bias nn), fst input,
        fst (layer2_weights nn), fst (layer2_bias nn), fst output} \<and>
      separate output (layer2_output_size nn) (layer2_weights nn)
        (layer2_input_size nn * layer2_output_size nn) \<and>
      separate output (layer2_output_size nn) (layer2_bias nn) (layer2_output_size nn))"

definition hidden_spec :: "NeuralNetwork \<Rightarrow> ptr \<Rightarrow> heap \<Rightarrow> f32 list" where
  "hidden_spec nn input h =
     relu_spec (dense_spec
       (read_buf h (layer1_weights nn) (layer1_input_size nn * layer1_output_size nn))
       (read_buf h (layer1_bias nn) (layer1_output_size nn))
       (read_buf h input (layer1_input_size nn))
       (layer1_input_size nn) (layer1_output_size nn))"

definition scores_spec :: "NeuralNetwork \<Rightarrow> ptr \<Rightarrow> heap \<Rightarrow> f32 list" where
  \<comment> \<open>the dense layer 2 of the hidden vector, for sizes that chain\<close>
  "scores_spec nn input h =
     dense_spec
       (read_buf h (layer2_weights nn) (layer1_output_size nn * layer2_output_size nn))
       (read_buf h (layer2_bias nn) (layer2_output_size nn))
       (hidden_spec nn input h)
       (layer1_output_size nn) (layer2_output_size nn)"

definition net_output :: "(f32 \<Rightarrow> f32) \<Rightarrow> NeuralNetwork \<Rightarrow> ptr \<Rightarrow> heap \<Rightarrow> f32 list" where
  "net_output expf nn input h = softmax_spec expf (scores_spec nn input h)"

definition tail_zero :: "NeuralNetwork \<Rightarrow> heap \<Rightarrow> bool" where
  "tail_zero nn h =
     (drop (layer1_output_size nn) (h (layer1_output nn))
        = replicate (18 - layer1_output_size nn) (Fin 0))"

text \<open>The calls of one instance, one after the other, each with its input and output buffer.\<close>

fun predict_calls ::
  "(f32 \<Rightarrow> f32) \<Rightarrow> NeuralNetwork \<Rightarrow> (ptr \<times> ptr) list \<Rightarrow> heap \<Rightarrow> fault + heap" where
  "predict_calls expf nn [] h = Inr h"
| "predict_calls expf nn (c # cs) h =
     (case predict expf nn (fst c) (snd c) h of Inl e \<Rightarrow> Inl e
      | Inr h' \<Rightarrow> predict_calls expf nn cs h')"

section \<open>Rounding\<close>

lemma half_even_of_int [simp]: "half_even (of_int k) = k"
  by (simp add: half_even_def)

lemma half_even_error: "\<bar>of_int (half_even t) - t\<bar> \<le> 1 / 2"
  unfolding half_even_def by (auto simp: abs_le_iff)

lemma half_even_le: "t \<le> of_int k \<Longrightarrow> half_even t \<le> k"
proof -
  assume t: "t \<le> of_int k"
  show ?thesis
  proof (cases "t = of_int k")
    case True
    then show ?thesis by simp
  next
    case False
    with t have "t < of_int k" by simp
    then have "\<lfloor>t\<rfloor> < k" by (simp add: floor_less_iff)
    then have "\<lfloor>t\<rfloor> + 1 \<le> k" by simp
    then show ?thesis
      unfolding half_even_def by auto
  qed
qed

lemma half_even_ge: "of_int k \<le> t \<Longrightarrow> k \<le> half_even t"
proof -
  assume "of_int k \<le> t"
  then have "k \<le> \<lfloor>t\<rfloor>" by (simp add: le_floor_iff)
  then show ?thesis
    unfolding half_even_def by auto
qed

lemma binade:
  assumes "0 < x" and "e = \<lfloor>log 2 x\<rfloor>"
  shows "2 powr of_int e \<le> x" and "x < 2 powr of_int (e + 1)"
proof -
  have "(of_int \<lfloor>log 2 x\<rfloor> \<le> log 2 x) = (2 powr of_int \<lfloor>log 2 x\<rfloor> \<le> x)"
    using assms(1) by (intro le_log_iff) auto
  then show "2 powr of_int e \<le> x"
    by (simp add: assms(2))
  have "(log 2 x < of_int (\<lfloor>log 2 x\<rfloor> + 1)) = (x < 2 powr of_int (\<lfloor>log 2 x\<rfloor> + 1))"
    using assms(1) by (intro log_less_iff) auto
  moreover have "log 2 x < of_int (\<lfloor>log 2 x\<rfloor> + 1)"
    by simp
  ultimately show "x < 2 powr of_int (e + 1)"
    by (simp add: assms(2))
qed

lemma powr2_mono: "(2 :: real) powr of_int a \<le> 2 powr of_int b \<longleftrightarrow> a \<le> b"
  by simp

lemma powr2_less: "(2 :: real) powr of_int a < 2 powr of_int b \<longleftrightarrow> a < b"
  by simp

lemma powr_int_split:
  assumes "q \<le> E"
  shows "of_int (2 ^ nat (E - q)) * 2 powr of_int q = (2 :: real) powr of_int E"
proof -
  have "(2 :: real) powr real (nat (E - q)) = 2 ^ nat (E - q)"
    by (simp add: powr_realpow)
  moreover have "real (nat (E - q)) = of_int E - of_int q"
    using assms by simp
  ultimately have "(2 :: real) ^ nat (E - q) = 2 powr (of_int E - of_int q)"
    by simp
  then have "(2 :: real) ^ nat (E - q) * 2 powr of_int q = 2 powr (of_int E - of_int q + of_int q)"
    by (simp only: powr_add)
  then show ?thesis by simp
qed

lemma ulp_exp_pos: "0 < (2 :: real) powr of_int (ulp_exp x)"
  by simp

lemma floor_log_le:
  assumes "0 < x" and "x \<le> 2 powr of_int E" and "e = \<lfloor>log 2 x\<rfloor>"
  shows "e \<le> E"
proof -
  have "(2 :: real) powr of_int e \<le> 2 powr of_int E"
    using binade(1) [OF assms(1,3)] assms(2) by (rule order_trans)
  then show ?thesis
    by (simp only: powr2_mono)
qed

lemma floor_log_ge:
  assumes "0 < x" and "2 powr of_int E \<le> x" and "e = \<lfloor>log 2 x\<rfloor>"
  shows "E \<le> e"
proof -
  have "(2 :: real) powr of_int E < 2 powr of_int (e + 1)"
    using assms(2) binade(2) [OF assms(1,3)] by (rule le_less_trans)
  then have "E < e + 1"
    by (simp only: powr2_less)
  then show ?thesis by simp
qed

text \<open>The grid of a non-zero \<open>x\<close>: spacing \<open>2 powr ulp_exp x\<close>, and its rounding on it.\<close>

lemma nearest_error: "\<bar>nearest x - x\<bar> \<le> 2 powr of_int (ulp_exp x) / 2"
proof -
  let ?g = "2 powr of_int (ulp_exp x) :: real"
  have g: "0 < ?g" by simp
  have "nearest x - x = (of_int (half_even (x / ?g)) - x / ?g) * ?g"
    using g by (simp add: nearest_def left_diff_distrib)
  then have "\<bar>nearest x - x\<bar> = \<bar>of_int (half_even (x / ?g)) - x / ?g\<bar> * ?g"
    by (simp add: abs_mult)
  also have "\<dots> \<le> 1 / 2 * ?g"
    using half_even_error [of "x / ?g"] by (intro mult_right_mono) simp_all
  finally show ?thesis by simp
qed

lemma nearest_upper:
  assumes "0 < x" and "x \<le> 2 powr of_int E" and "ulp_exp x \<le> E"
  shows "nearest x \<le> 2 powr of_int E"
proof -
  let ?q = "ulp_exp x" and ?g = "2 powr of_int (ulp_exp x) :: real"
  have split: "of_int (2 ^ nat (E - ?q)) * ?g = 2 powr of_int E"
    by (rule powr_int_split [OF assms(3)])
  have "x / ?g \<le> 2 powr of_int E / ?g"
    using assms(2) by (simp add: divide_right_mono)
  also have "\<dots> = of_int (2 ^ nat (E - ?q))"
    unfolding split [symmetric] by simp
  finally have "half_even (x / ?g) \<le> 2 ^ nat (E - ?q)"
    by (rule half_even_le)
  then have "(of_int (half_even (x / ?g)) :: real) \<le> of_int (2 ^ nat (E - ?q))"
    by (simp only: of_int_le_iff)
  then have "of_int (half_even (x / ?g)) * ?g \<le> of_int (2 ^ nat (E - ?q)) * ?g"
    by (rule mult_right_mono) simp
  then show ?thesis
    unfolding split nearest_def .
qed

lemma nearest_lower:
  assumes "0 < x" and "2 powr of_int E \<le> x" and "ulp_exp x \<le> E"
  shows "2 powr of_int E \<le> nearest x"
proof -
  let ?q = "ulp_exp x" and ?g = "2 powr of_int (ulp_exp x) :: real"
  have split: "of_int (2 ^ nat (E - ?q)) * ?g = 2 powr of_int E"
    by (rule powr_int_split [OF assms(3)])
  have "of_int (2 ^ nat (E - ?q)) = 2 powr of_int E / ?g"
    unfolding split [symmetric] by simp
  also have "\<dots> \<le> x / ?g"
    using assms(2) by (simp add: divide_right_mono)
  finally have "2 ^ nat (E - ?q) \<le> half_even (x / ?g)"
    by (rule half_even_ge)
  then have "(of_int (2 ^ nat (E - ?q)) :: real) \<le> of_int (half_even (x / ?g))"
    by (simp only: of_int_le_iff)
  then have "of_int (2 ^ nat (E - ?q)) * ?g \<le> of_int (half_even (x / ?g)) * ?g"
    by (rule mult_right_mono) simp
  then show ?thesis
    unfolding split nearest_def .
qed

lemma nearest_nonneg: "0 \<le> x \<Longrightarrow> 0 \<le> nearest x"
proof -
  assume "0 \<le> x"
  then have "of_int 0 \<le> x / 2 powr of_int (ulp_exp x)"
    by simp
  then have "0 \<le> half_even (x / 2 powr of_int (ulp_exp x))"
    by (rule half_even_ge)
  then show ?thesis
    by (simp add: nearest_def)
qed

lemma nearest_nonpos: "x \<le> 0 \<Longrightarrow> nearest x \<le> 0"
proof -
  assume "x \<le> 0"
  then have "x / 2 powr of_int (ulp_exp x) \<le> of_int 0"
    by (simp add: divide_nonpos_pos)
  then have "half_even (x / 2 powr of_int (ulp_exp x)) \<le> 0"
    by (rule half_even_le)
  then show ?thesis
    by (simp add: nearest_def mult_nonpos_nonneg)
qed

lemma ulp_exp_le:
  assumes "0 < x" and "x \<le> 2 powr of_int E" and "- 149 \<le> E"
  shows "ulp_exp x \<le> E"
proof -
  define e where "e = \<lfloor>log 2 x\<rfloor>"
  have "e \<le> E"
    using assms(1,2) e_def by (rule floor_log_le)
  moreover have "ulp_exp x = max e (- 126) - 23"
    using assms(1) by (simp add: ulp_exp_def e_def)
  ultimately show ?thesis
    using assms(3) by simp
qed

lemma rnd_0 [simp]: "rnd 0 = Fin 0"
  by (simp add: rnd_def)

lemma rnd_unit:
  assumes "0 \<le> x" and "x \<le> 1"
  shows "\<exists>r. rnd x = Fin r \<and> 0 \<le> r \<and> r \<le> 1"
proof (cases "x = 0")
  case True
  then show ?thesis by simp
next
  case False
  with assms have pos: "0 < x" by simp
  have x1: "x \<le> 2 powr of_int 0"
    using assms(2) by simp
  have "nearest x \<le> 2 powr of_int 0"
    using pos x1 by (intro nearest_upper ulp_exp_le) simp_all
  then have le: "nearest x \<le> 1" by simp
  have ge: "0 \<le> nearest x"
    using assms(1) by (rule nearest_nonneg)
  from le ge have "\<not> 2 ^ 128 \<le> \<bar>nearest x\<bar>" by simp
  with le ge show ?thesis
    using False by (simp add: rnd_def)
qed

lemma rnd_nonpos:
  assumes "x \<le> 0"
  shows "rnd x = NInf \<or> (\<exists>r. rnd x = Fin r \<and> r \<le> 0)"
  using assms nearest_nonpos [OF assms] by (simp add: rnd_def)

lemma nearest_binade:
  assumes "0 < x" and "e = \<lfloor>log 2 x\<rfloor>" and "- 149 \<le> e"
  shows "2 powr of_int e \<le> nearest x"
proof -
  have "ulp_exp x = max e (- 126) - 23"
    using assms(1,2) by (simp add: ulp_exp_def)
  then have "ulp_exp x \<le> e"
    using assms(3) by simp
  with assms(1) binade(1) [OF assms(1,2)] show ?thesis
    by (rule nearest_lower)
qed

lemma rnd_ge_1:
  assumes "1 \<le> x"
  shows "rnd x = PInf \<or> (\<exists>r. rnd x = Fin r \<and> 1 \<le> r)"
proof -
  define e where "e = \<lfloor>log 2 x\<rfloor>"
  have pos: "0 < x" using assms by simp
  have "2 powr of_int 0 \<le> x"
    using assms by simp
  with pos have e: "0 \<le> e"
    using e_def by (rule floor_log_ge)
  then have "- 149 \<le> e" by simp
  with pos e_def have "2 powr of_int e \<le> nearest x"
    by (rule nearest_binade)
  moreover have "(2 :: real) powr of_int 0 \<le> 2 powr of_int e"
    using e by (simp only: powr2_mono)
  ultimately have "2 powr of_int 0 \<le> nearest x" by (rule order_trans [rotated])
  then have "1 \<le> nearest x" by simp
  then show ?thesis
    using pos by (simp add: rnd_def)
qed

lemma two_powr_128: "(2 :: real) powr of_int 128 = 2 ^ 128"
proof -
  have "(2 :: real) powr real 128 = 2 ^ 128"
    by (rule powr_realpow) simp
  then show ?thesis by simp
qed

lemma rnd_overflow:
  assumes "2 ^ 128 \<le> x"
  shows "rnd x = PInf"
proof -
  define e where "e = \<lfloor>log 2 x\<rfloor>"
  have pos: "0 < x"
    using assms by (rule less_le_trans [rotated]) simp
  have "2 powr of_int 128 \<le> x"
    using assms by (simp only: two_powr_128)
  with pos have e: "128 \<le> e"
    using e_def by (rule floor_log_ge)
  then have "- 149 \<le> e" by simp
  with pos e_def have "2 powr of_int e \<le> nearest x"
    by (rule nearest_binade)
  moreover have "(2 :: real) powr of_int 128 \<le> 2 powr of_int e"
    using e by (simp only: powr2_mono)
  ultimately have "2 powr of_int 128 \<le> nearest x" by (rule order_trans [rotated])
  then have "2 ^ 128 \<le> nearest x"
    by (simp only: two_powr_128)
  then show ?thesis
    using pos by (simp add: rnd_def)
qed

lemma floor_log_eq:
  assumes "2 powr of_int e \<le> x" and "x < 2 powr of_int (e + 1)"
  shows "\<lfloor>log 2 x\<rfloor> = e"
proof -
  have "0 < (2 :: real) powr of_int e" by simp
  with assms(1) have x: "0 < x" by linarith
  define f where "f = \<lfloor>log 2 x\<rfloor>"
  have f: "f = \<lfloor>log 2 x\<rfloor>" by (simp add: f_def)
  have "e \<le> f" using x assms(1) f by (rule floor_log_ge)
  moreover have "2 powr of_int f \<le> x" using x f by (rule binade(1))
  with assms(2) have "(2 :: real) powr of_int f < 2 powr of_int (e + 1)" by linarith
  then have "f < e + 1" by (simp only: powr2_less)
  ultimately show ?thesis unfolding f_def by linarith
qed

lemma ulp_exp_eq:
  assumes "2 powr of_int e \<le> \<bar>x\<bar>" and "\<bar>x\<bar> < 2 powr of_int (e + 1)"
  shows "ulp_exp x = max e (- 126) - 23"
  unfolding ulp_exp_def floor_log_eq [OF assms] ..

lemma nearest_exact:
  assumes "x = of_int k * 2 powr of_int (ulp_exp x)"
  shows "nearest x = x"
proof -
  have "x / 2 powr of_int (ulp_exp x) = of_int k"
    using assms by (simp add: field_simps)
  then show ?thesis
    unfolding nearest_def using assms by simp
qed

lemma rnd_scaled:
  assumes m: "\<bar>m\<bar> < 2 ^ 24" and q: "- 149 \<le> q" "q \<le> 104"
  shows "rnd (of_int m * 2 powr of_int q) = Fin (of_int m * 2 powr of_int q)"
proof (cases "m = 0")
  case True
  then show ?thesis by simp
next
  case False
  define x :: real where "x = of_int m * 2 powr of_int q"
  define e where "e = \<lfloor>log 2 \<bar>x\<bar>\<rfloor>"
  have ax: "\<bar>x\<bar> = of_int \<bar>m\<bar> * 2 powr of_int q"
    by (simp add: x_def abs_mult)
  have pos: "0 < \<bar>x\<bar>"
    using False by (simp add: x_def)
  have "of_int \<bar>m\<bar> < (2 :: real) ^ 24"
    using m by (metis of_int_less_iff of_int_numeral of_int_power)
  then have "\<bar>x\<bar> < 2 ^ 24 * 2 powr of_int q"
    unfolding ax by (simp add: mult_strict_right_mono)
  also have "(2 :: real) ^ 24 * 2 powr of_int q = 2 powr of_int (24 + q)"
    using powr_int_split [of q "24 + q"] by simp
  finally have lt: "\<bar>x\<bar> < 2 powr of_int (24 + q)" .
  have "2 powr of_int e \<le> \<bar>x\<bar>"
    using pos e_def by (rule binade(1))
  with lt have "(2 :: real) powr of_int e < 2 powr of_int (24 + q)" by linarith
  then have e: "e < 24 + q" by (simp only: powr2_less)
  have u: "ulp_exp x = max e (- 126) - 23"
    by (simp add: ulp_exp_def e_def)
  have uq: "ulp_exp x \<le> q"
    using e q u by linarith
  have "x = of_int (m * 2 ^ nat (q - ulp_exp x)) * 2 powr of_int (ulp_exp x)"
    using powr_int_split [OF uq] by (simp add: x_def mult.assoc)
  then have n: "nearest x = x"
    by (rule nearest_exact)
  have "(2 :: real) powr of_int (24 + q) \<le> 2 powr of_int 128"
    using q by (simp only: powr2_mono)
  with lt have "\<bar>x\<bar> < 2 ^ 128"
    unfolding two_powr_128 by linarith
  then show ?thesis
    unfolding x_def [symmetric] by (simp add: rnd_def n)
qed

lemma rnd_int:
  assumes "\<bar>m\<bar> < 2 ^ 24"
  shows "rnd (of_int m) = Fin (of_int m)"
  using rnd_scaled [OF assms, of 0] by simp

lemma rnd_dyadic:
  assumes "\<bar>m\<bar> < 2 ^ 24" and "n \<le> 149"
  shows "rnd (of_int m / 2 ^ n) = Fin (of_int m / 2 ^ n)"
proof -
  have "(2 :: real) powr of_int (- int n) = 1 / 2 ^ n"
    by (simp add: powr_minus powr_realpow inverse_eq_divide)
  then show ?thesis
    using rnd_scaled [OF assms(1), of "- int n"] assms(2) by simp
qed

lemma rnd_pow2:
  assumes "n \<le> 127"
  shows "rnd (2 ^ n) = Fin (2 ^ n)"
proof -
  define k where "k = min n 23"
  have k: "k \<le> 23" "k \<le> n" "n - k \<le> 104"
    using assms by (simp_all add: k_def)
  have "(2 :: real) powr of_int (int (n - k)) = 2 ^ (n - k)"
    by (simp add: powr_realpow)
  moreover have "(2 :: real) ^ k * 2 ^ (n - k) = 2 ^ n"
    using k(2) by (simp add: power_add [symmetric])
  moreover have "(2 :: int) ^ k < 2 ^ 24"
    using k(1) by (intro power_strict_increasing) simp_all
  then have "\<bar>(2 :: int) ^ k\<bar> < 2 ^ 24" by simp
  from rnd_scaled [OF this, of "int (n - k)"] k(3)
  have "rnd (of_int (2 ^ k) * 2 powr of_int (int (n - k)))
      = Fin (of_int (2 ^ k) * 2 powr of_int (int (n - k)))"
    by simp
  ultimately show ?thesis by simp
qed

lemma rnd_eval:
  assumes "2 powr of_int e \<le> \<bar>x\<bar>" and "\<bar>x\<bar> < 2 powr of_int (e + 1)"
    and "- 126 \<le> e"
    and "half_even (x / 2 powr of_int (e - 23)) = k" and "\<bar>of_int k * 2 powr of_int (e - 23)\<bar> < (2 :: real) ^ 128"
  shows "rnd x = Fin (of_int k * 2 powr of_int (e - 23))"
proof -
  have u: "ulp_exp x = e - 23"
    using ulp_exp_eq [OF assms(1,2)] assms(3) by simp
  have "0 < (2 :: real) powr of_int e" by simp
  with assms(1) have "x \<noteq> 0" by auto
  moreover have "nearest x = of_int k * 2 powr of_int (e - 23)"
    unfolding nearest_def u assms(4) ..
  ultimately show ?thesis
    using assms(5) by (simp add: rnd_def)
qed

lemma rnd_tie: "rnd 16777217 = Fin 16777216"
proof -
  have h: "half_even (16777217 / 2) = 8388608"
    by (simp add: half_even_def)
  have p: "(2 :: real) powr 24 = 16777216" "(2 :: real) powr 25 = 33554432"
    by simp_all
  show ?thesis
    using rnd_eval [of 24 16777217 8388608] h by (simp add: p)
qed

lemma rnd_third: "rnd (1 / 3) = Fin (11184811 / 33554432)"
proof -
  have h: "half_even (33554432 / 3) = 11184811"
    by (simp add: half_even_def)
  have p: "(2 :: real) powr (- 2) = 1 / 4" "(2 :: real) powr (- 1) = 1 / 2"
    "(2 :: real) powr (- 25) = 1 / 33554432"
    by (simp_all add: powr_minus inverse_eq_divide)
  show ?thesis
    using rnd_eval [of "- 2" "1 / 3" 11184811] h by (simp add: p)
qed

lemma rnd_numeral:
  "numeral k < (16777216 :: int) \<Longrightarrow> rnd (numeral k) = Fin (numeral k)"
  "numeral k < (16777216 :: int) \<Longrightarrow> rnd (- numeral k) = Fin (- numeral k)"
  using rnd_int [of "numeral k"] rnd_int [of "- numeral k"] by simp_all

lemma rnd_two_24: "rnd 16777216 = Fin 16777216" "rnd (- 16777216) = Fin (- 16777216)"
  using rnd_scaled [of 1 24] rnd_scaled [of "- 1" 24] by simp_all

lemma rnd_1 [simp]: "rnd 1 = Fin 1"
  using rnd_int [of 1] by simp

lemma expf_ok_rn: "expf_ok expf_rn"
proof -
  have "\<exists>e. rnd (exp y) = Fin e \<and> 0 \<le> e \<and> e \<le> 1" if "y \<le> 0" for y :: real
    using that by (intro rnd_unit) simp_all
  then show ?thesis
    by (simp add: expf_ok_def)
qed

lemma nearest_0 [simp]: "nearest 0 = 0"
  using half_even_of_int [of 0] by (simp add: nearest_def)

lemma rnd_nearest:
  assumes "\<bar>nearest x\<bar> < 2 ^ 128"
  shows "rnd x = Fin (nearest x)"
  using assms by (simp add: rnd_def)

lemma two_powr_24: "(2 :: real) powr of_int 24 = 16777216" "(2 :: real) powr of_int 25 = 33554432"
  by simp_all

lemma rnd_sum_step:
  assumes "0 \<le> x" and "x \<le> 16777217"
  shows "\<exists>r. rnd x = Fin r \<and> r = nearest x \<and> 0 \<le> r \<and> r \<le> 16777216"
proof -
  have n: "0 \<le> nearest x \<and> nearest x \<le> 16777216"
  proof (cases "x \<le> 16777216")
    case True
    show ?thesis
    proof (cases "x = 0")
      case True
      then show ?thesis by simp
    next
      case False
      with assms(1) have pos: "0 < x" by simp
      have le: "x \<le> 2 powr of_int 24"
        using True by (simp only: two_powr_24)
      have "ulp_exp x \<le> 24"
        using pos le by (rule ulp_exp_le) simp
      with pos le have "nearest x \<le> 2 powr of_int 24"
        by (rule nearest_upper)
      with nearest_nonneg [OF assms(1)] show ?thesis
        unfolding two_powr_24 by simp
    qed
  next
    case False
    then have gt: "16777216 < x" by simp
    have "2 powr of_int 24 \<le> \<bar>x\<bar>" "\<bar>x\<bar> < 2 powr of_int (24 + 1)"
      using gt assms(2) by (simp_all only: two_powr_24) simp_all
    then have u: "ulp_exp x = 1"
      using ulp_exp_eq [of 24 x] by simp
    have fl: "\<lfloor>x / 2\<rfloor> = 8388608"
      using gt assms(2) by (simp add: floor_eq_iff)
    have "x / 2 - of_int \<lfloor>x / 2\<rfloor> \<le> 1 / 2"
      unfolding fl using assms(2) by simp
    then have "half_even (x / 2) = 8388608"
      unfolding half_even_def fl by simp
    then have "nearest x = 16777216"
      by (simp add: nearest_def u)
    then show ?thesis by simp
  qed
  then have "\<bar>nearest x\<bar> < 2 ^ 128" by simp
  from rnd_nearest [OF this] n show ?thesis by simp
qed

lemma nearest_rel:
  "\<bar>nearest x - x\<bar> \<le> \<bar>x\<bar> / 16777216 + 2 powr (- 150)"
proof (cases "x = 0")
  case True
  then show ?thesis by simp
next
  case False
  define e where "e = \<lfloor>log 2 \<bar>x\<bar>\<rfloor>"
  have pos: "0 < \<bar>x\<bar>" using False by simp
  have lo: "2 powr of_int e \<le> \<bar>x\<bar>"
    using pos e_def by (rule binade(1))
  have u: "ulp_exp x = max e (- 126) - 23"
    by (simp add: ulp_exp_def e_def)
  have err: "\<bar>nearest x - x\<bar> \<le> 2 powr of_int (ulp_exp x) / 2"
    by (rule nearest_error)
  show ?thesis
  proof (cases "- 126 \<le> e")
    case True
    then have "ulp_exp x = e - 23" using u by simp
    then have "2 powr of_int (ulp_exp x) / 2 = (2 :: real) powr (of_int e - 24)"
      by (simp add: powr_diff)
    also have "\<dots> = 2 powr of_int e / 16777216"
      by (simp add: powr_diff)
    also have "\<dots> \<le> \<bar>x\<bar> / 16777216"
      using lo by simp
    finally have "2 powr of_int (ulp_exp x) / 2 \<le> \<bar>x\<bar> / 16777216" .
    moreover have "0 \<le> (2 :: real) powr (- 150)" by simp
    ultimately show ?thesis using err by linarith
  next
    case False
    then have "ulp_exp x = - 149" using u by simp
    moreover have "(2 :: real) powr (- 149 - 1) = 2 powr (- 149) / 2 powr 1"
      by (rule powr_diff)
    ultimately have "2 powr of_int (ulp_exp x) / 2 = (2 :: real) powr (- 150)"
      by simp
    moreover have "0 \<le> \<bar>x\<bar> / 16777216" by simp
    ultimately show ?thesis using err by linarith
  qed
qed

lemma eta_small: "(2 :: real) powr (- 150) \<le> 1 / 16777216 / 2"
proof -
  have "(2 :: real) powr (- 150) \<le> 2 powr (- 25)"
    by (rule powr_mono) simp_all
  also have "\<dots> = 1 / 33554432"
    by (simp add: powr_minus inverse_eq_divide)
  finally show ?thesis by simp
qed

section \<open>Loops and buffers\<close>

lemma for_range_empty [simp]: "hi \<le> lo \<Longrightarrow> for_range lo hi body s = Inr s"
  by (simp add: for_range_def)

lemma fst_idx [simp]: "fst (idx p i) = fst p"
  by (simp add: idx_def)

lemma snd_idx [simp]: "snd (idx p i) = snd p + i"
  by (simp add: idx_def)

lemma idx_0 [simp]: "idx p 0 = p"
  by (simp add: idx_def)

lemma idx_idx [simp]: "idx (idx p i) j = idx p (i + j)"
  by (simp add: idx_def add.assoc)

lemma loop_total:
  assumes step: "\<And>i s. lo \<le> i \<Longrightarrow> i < lo + k \<Longrightarrow> I i s \<Longrightarrow> \<exists>s'. body i s = Inr s' \<and> I (Suc i) s'"
    and init: "I lo s"
  shows "\<exists>s'. loop body lo k s = Inr s' \<and> I (lo + k) s'"
  using assms
proof (induction k arbitrary: lo s)
  case 0
  then show ?case by simp
next
  case (Suc k)
  from Suc.prems(1) [of lo s] Suc.prems(2)
  obtain s1 where s1: "body lo s = Inr s1" "I (Suc lo) s1" by auto
  have "\<exists>s'. loop body (Suc lo) k s1 = Inr s' \<and> I (Suc lo + k) s'"
  proof (rule Suc.IH)
    fix i t assume "Suc lo \<le> i" "i < Suc lo + k" "I i t"
    then show "\<exists>s'. body i t = Inr s' \<and> I (Suc i) s'"
      using Suc.prems(1) [of i t] by simp
  qed (rule s1(2))
  with s1(1) show ?case by simp
qed

lemma for_range_total:
  assumes "lo \<le> hi" and "I lo s"
    and "\<And>i s. lo \<le> i \<Longrightarrow> i < hi \<Longrightarrow> I i s \<Longrightarrow> \<exists>s'. body i s = Inr s' \<and> I (Suc i) s'"
  shows "\<exists>s'. for_range lo hi body s = Inr s' \<and> I hi s'"
proof -
  have "\<exists>s'. loop body lo (hi - lo) s = Inr s' \<and> I (lo + (hi - lo)) s'"
    by (rule loop_total) (use assms in auto)
  with assms(1) show ?thesis by (simp add: for_range_def)
qed

lemma loop_keeps:
  assumes "\<And>i s s'. lo \<le> i \<Longrightarrow> i < lo + k \<Longrightarrow> I s \<Longrightarrow> body i s = Inr s' \<Longrightarrow> I s'"
    and "I s" and "loop body lo k s = Inr s'"
  shows "I s'"
  using assms
proof (induction k arbitrary: lo s)
  case 0
  then show ?case by simp
next
  case (Suc k)
  from Suc.prems(3) obtain s1 where s1: "body lo s = Inr s1" "loop body (Suc lo) k s1 = Inr s'"
    by (auto split: sum.splits)
  have "I s1"
    using Suc.prems(1) [of lo s s1] Suc.prems(2) s1(1) by simp
  moreover have "I t'" if "Suc lo \<le> i" "i < Suc lo + k" "I t" "body i t = Inr t'" for i t t'
    using Suc.prems(1) [of i t t'] that by simp
  ultimately show ?case
    using Suc.IH [of "Suc lo" s1] s1(2) by blast
qed

lemma for_range_keeps:
  assumes "\<And>i s s'. lo \<le> i \<Longrightarrow> i < hi \<Longrightarrow> I s \<Longrightarrow> body i s = Inr s' \<Longrightarrow> I s'"
    and "I s" and "for_range lo hi body s = Inr s'"
  shows "I s'"
proof (rule loop_keeps [where I = I and body = body and lo = lo and k = "hi - lo" and s = s])
  show "loop body lo (hi - lo) s = Inr s'"
    using assms(3) by (simp add: for_range_def)
qed (use assms(1,2) in auto)

lemma write_buf_Nil [simp]: "write_buf h p [] = h"
  by (simp add: write_buf_def)

lemma write_buf_other [simp]: "b \<noteq> fst p \<Longrightarrow> write_buf h p xs b = h b"
  by (simp add: write_buf_def)

lemma length_write_buf:
  "valid_buf h p (length xs) \<Longrightarrow> length (write_buf h p xs b) = length (h b)"
  by (simp add: write_buf_def valid_buf_def)

lemma valid_write_buf:
  "valid_buf h p (length xs) \<Longrightarrow> valid_buf (write_buf h p xs) q n = valid_buf h q n"
  by (simp add: valid_buf_def [of _ q] length_write_buf)

lemma load_valid:
  "valid_buf h p n \<Longrightarrow> i < n \<Longrightarrow> load h (idx p i) = Inr (cell h (idx p i))"
  by (simp add: load_def valid_buf_def cell_def)

lemma cell_write_buf_in:
  "valid_buf h p (length xs) \<Longrightarrow> j < length xs \<Longrightarrow> cell (write_buf h p xs) (idx p j) = xs ! j"
  by (simp add: cell_def write_buf_def valid_buf_def nth_append)

lemma cell_write_buf_out:
  assumes "valid_buf h p (length xs)"
    and "fst q \<noteq> fst p \<or> snd q < snd p \<or> snd p + length xs \<le> snd q"
  shows "cell (write_buf h p xs) q = cell h q"
proof (cases "fst q = fst p")
  case False
  then show ?thesis by (simp add: cell_def)
next
  case True
  with assms(2) consider "snd q < snd p" | "snd p + length xs \<le> snd q" by auto
  then show ?thesis
  proof cases
    case 1
    with True assms(1) show ?thesis
      by (simp add: cell_def write_buf_def valid_buf_def nth_append)
  next
    case 2
    then obtain d where d: "snd q = snd p + length xs + d"
      by (metis le_Suc_ex)
    with True assms(1) show ?thesis
      by (simp add: cell_def write_buf_def valid_buf_def nth_append add.assoc)
  qed
qed

lemma load_write_buf_in:
  "valid_buf h p (length xs) \<Longrightarrow> j < length xs \<Longrightarrow>
   load (write_buf h p xs) (idx p j) = Inr (xs ! j)"
  using cell_write_buf_in [of h p xs j]
  by (simp add: load_def length_write_buf cell_def) (simp add: valid_buf_def)

lemma load_write_buf_out:
  assumes "valid_buf h p (length xs)"
    and "fst q \<noteq> fst p \<or> snd q < snd p \<or> snd p + length xs \<le> snd q"
  shows "load (write_buf h p xs) q = load h q"
  using cell_write_buf_out [of h p xs q] assms
  by (simp add: load_def length_write_buf cell_def)

lemma store_write_buf_in:
  assumes "valid_buf h p (length xs)" and "j < length xs"
  shows "store (write_buf h p xs) (idx p j) v = Inr (write_buf h p (xs[j := v]))"
proof -
  have "(write_buf h p xs)(fst p := (write_buf h p xs (fst p))[snd p + j := v])
        = write_buf h p (xs[j := v])"
    using assms by (simp add: write_buf_def valid_buf_def list_update_append)
  moreover have "snd p + j < length (h (fst p))"
    using assms by (simp add: valid_buf_def)
  ultimately show ?thesis
    using assms(1) by (simp add: store_def length_write_buf)
qed

lemma store_write_buf_end:
  assumes "valid_buf h p (Suc (length xs))"
  shows "store (write_buf h p xs) (idx p (length xs)) v = Inr (write_buf h p (xs @ [v]))"
proof -
  let ?ys = "h (fst p)"
  have lt: "snd p + length xs < length ?ys"
    using assms by (simp add: valid_buf_def)
  then have "drop (snd p + length xs) ?ys = ?ys ! (snd p + length xs) # drop (Suc (snd p + length xs)) ?ys"
    by (simp add: Cons_nth_drop_Suc)
  then have "(write_buf h p xs)(fst p := (write_buf h p xs (fst p))[snd p + length xs := v])
        = write_buf h p (xs @ [v])"
    using lt by (simp add: write_buf_def list_update_append)
  moreover have "valid_buf h p (length xs)"
    using assms by (simp add: valid_buf_def)
  ultimately show ?thesis
    using lt by (simp add: store_def length_write_buf)
qed

lemma read_buf_Suc:
  "valid_buf h p (Suc n) \<Longrightarrow> read_buf h p (Suc n) = read_buf h p n @ [cell h (idx p n)]"
  by (simp add: read_buf_def valid_buf_def cell_def take_Suc_conv_app_nth)

lemma read_buf_0 [simp]: "read_buf h p 0 = []"
  by (simp add: read_buf_def)

lemma length_read_buf: "valid_buf h p n \<Longrightarrow> length (read_buf h p n) = n"
  by (simp add: read_buf_def valid_buf_def)

lemma nth_read_buf: "i < n \<Longrightarrow> valid_buf h p n \<Longrightarrow> read_buf h p n ! i = cell h (idx p i)"
  by (simp add: read_buf_def valid_buf_def cell_def)

lemma valid_buf_mono: "valid_buf h p n \<Longrightarrow> m \<le> n \<Longrightarrow> valid_buf h p m"
  by (simp add: valid_buf_def)

lemma index_less: "i < rows \<Longrightarrow> j < cols \<Longrightarrow> i * cols + j < rows * (cols :: nat)"
proof -
  assume i: "i < rows" and j: "j < cols"
  have "i * cols + j < i * cols + cols" using j by simp
  also have "\<dots> = Suc i * cols" by simp
  also have "\<dots> \<le> rows * cols" using i by (intro mult_le_mono1) simp
  finally show ?thesis .
qed

lemma separate_out:
  assumes "separate p n q m" and "k < m"
  shows "fst (idx q k) \<noteq> fst p \<or> snd (idx q k) < snd p \<or> snd p + n \<le> snd (idx q k)"
  using assms by (auto simp: separate_def)

lemma load_other:
  assumes "valid_buf h p (length xs)" and "separate p (length xs) q m" and "valid_buf h q m"
    and "k < m"
  shows "load (write_buf h p xs) (idx q k) = Inr (read_buf h q m ! k)"
proof -
  have "load (write_buf h p xs) (idx q k) = load h (idx q k)"
    using assms(1) separate_out [OF assms(2,4)] by (rule load_write_buf_out)
  then show ?thesis
    using load_valid [OF assms(3,4)] nth_read_buf [OF assms(4,3)] by simp
qed

lemma read_buf_write_buf_same:
  "valid_buf h p (length xs) \<Longrightarrow> read_buf (write_buf h p xs) p (length xs) = xs"
  by (simp add: read_buf_def write_buf_def valid_buf_def)

lemma read_buf_write_buf_other:
  assumes "valid_buf h p (length xs)" and "separate p (length xs) q m" and "valid_buf h q m"
  shows "read_buf (write_buf h p xs) q m = read_buf h q m"
proof (rule nth_equalityI)
  have v: "valid_buf (write_buf h p xs) q m"
    using assms(1,3) by (simp add: valid_write_buf)
  then show "length (read_buf (write_buf h p xs) q m) = length (read_buf h q m)"
    using assms(3) by (simp add: length_read_buf)
  fix k assume "k < length (read_buf (write_buf h p xs) q m)"
  then have k: "k < m"
    using v by (simp add: length_read_buf)
  have "cell (write_buf h p xs) (idx q k) = cell h (idx q k)"
    using assms(1) separate_out [OF assms(2) k] by (rule cell_write_buf_out)
  then show "read_buf (write_buf h p xs) q m ! k = read_buf h q m ! k"
    using k v assms(3) by (simp add: nth_read_buf)
qed

lemma write_buf_write_buf:
  "valid_buf h p (length xs) \<Longrightarrow> length ys = length xs \<Longrightarrow>
   write_buf (write_buf h p xs) p ys = write_buf h p ys"
  by (simp add: write_buf_def valid_buf_def)

section \<open>ReLU\<close>

lemma relu_run:
  assumes "valid_buf h data n"
  shows "relu data n h = Inr (write_buf h data (relu_spec (read_buf h data n)))"
proof -
  let ?I = "\<lambda>i s. s = write_buf h data (relu_spec (read_buf h data i))"
  let ?body = "\<lambda>i h. case load h (idx data i) of Inl e \<Rightarrow> Inl e
       | Inr x \<Rightarrow> store h (idx data i) (if fgt x (Fin 0) then x else Fin 0)"
  have "\<exists>s'. for_range 0 n ?body h = Inr s' \<and> ?I n s'"
  proof (rule for_range_total)
    show "?I 0 h" by (simp add: relu_spec_def)
  next
    fix i s assume i: "i < n" and s: "?I i s"
    let ?xs = "relu_spec (read_buf h data i)"
    have v: "valid_buf h data (Suc i)" "valid_buf h data i"
      using assms i by (auto intro: valid_buf_mono)
    have len: "length ?xs = i"
      using v by (simp add: relu_spec_def length_read_buf)
    have bound: "valid_buf h data (Suc (length ?xs))" "valid_buf h data (length ?xs)"
      using v len by simp_all
    have "load s (idx data i) = load h (idx data i)"
      unfolding s using bound(2) len by (intro load_write_buf_out) auto
    also have "\<dots> = Inr (cell h (idx data i))"
      using load_valid [OF assms i] .
    finally have ld: "load s (idx data i) = Inr (cell h (idx data i))" .
    have st: "store s (idx data i) v = Inr (write_buf h data (?xs @ [v]))" for v
      unfolding s using store_write_buf_end [OF bound(1), of v] len by simp
    show "\<exists>s'. ?body i s = Inr s' \<and> ?I (Suc i) s'"
      by (simp add: ld st read_buf_Suc [OF v(1)] relu_spec_def)
  qed simp
  then show ?thesis by (simp add: relu_def)
qed

lemma relu_value:
  "(if fgt x (Fin 0) then x else Fin 0)
     = (if flt x (Fin 0) then Fin 0 else if x = NaN then Fin 0 else x)"
  "fge (if fgt x (Fin 0) then x else Fin 0) (Fin 0)"
  "fge x (Fin 0) \<Longrightarrow> \<not> flt x (Fin 0) \<and> x \<noteq> NaN"
  by (cases x; simp add: flt_def)+

text \<open>
  C6. For every buffer of any length, the empty one included, \<^verbatim>\<open>relu\<close> returns normally,
  replaces each negative element (the negative infinity included) by zero and leaves each
  non-negative element (the positive infinity included) as it is, so that no element of the
  result is negative; a NaN, which is neither, becomes zero, so that the result holds no NaN
  either. No cell outside the buffer changes and no object changes its length; on an empty
  buffer the store is unchanged.
\<close>

theorem relu_correct:
  assumes "valid_buf h data n"
  shows "\<exists>h'. relu data n h = Inr h' \<and>
     (\<forall>i<n. cell h' (idx data i)
              = (if flt (cell h (idx data i)) (Fin 0) then Fin 0
                 else if cell h (idx data i) = NaN then Fin 0 else cell h (idx data i))
           \<and> (fge (cell h (idx data i)) (Fin 0) \<longrightarrow> cell h' (idx data i) = cell h (idx data i))
           \<and> fge (cell h' (idx data i)) (Fin 0)) \<and>
     (\<forall>q. fst q \<noteq> fst data \<or> snd q < snd data \<or> snd data + n \<le> snd q \<longrightarrow> cell h' q = cell h q) \<and>
     (\<forall>b. length (h' b) = length (h b)) \<and>
     (n = 0 \<longrightarrow> h' = h)"
proof -
  let ?xs = "relu_spec (read_buf h data n)"
  have len: "length ?xs = n"
    using assms by (simp add: relu_spec_def length_read_buf)
  have bound: "valid_buf h data (length ?xs)"
    using assms len by simp
  have c: "cell (write_buf h data ?xs) (idx data i)
      = (if fgt (cell h (idx data i)) (Fin 0) then cell h (idx data i) else Fin 0)"
    if "i < n" for i
    using cell_write_buf_in [OF bound, of i] that len assms
    by (simp add: relu_spec_def nth_read_buf length_read_buf)
  have "cell (write_buf h data ?xs) (idx data i)
      = (if flt (cell h (idx data i)) (Fin 0) then Fin 0
         else if cell h (idx data i) = NaN then Fin 0 else cell h (idx data i))
      \<and> (fge (cell h (idx data i)) (Fin 0)
           \<longrightarrow> cell (write_buf h data ?xs) (idx data i) = cell h (idx data i))
      \<and> fge (cell (write_buf h data ?xs) (idx data i)) (Fin 0)" if "i < n" for i
    unfolding c [OF that] using relu_value [of "cell h (idx data i)"] by presburger
  moreover have "cell (write_buf h data ?xs) q = cell h q"
    if "fst q \<noteq> fst data \<or> snd q < snd data \<or> snd data + n \<le> snd q" for q
    using cell_write_buf_out [OF bound, of q] that len by simp
  moreover have "length (write_buf h data ?xs b) = length (h b)" for b
    using bound by (rule length_write_buf)
  moreover have "n = 0 \<Longrightarrow> write_buf h data ?xs = h"
    by (simp add: relu_spec_def)
  ultimately show ?thesis
    unfolding relu_run [OF assms] by blast
qed

theorem relu_correct_witness:
  "valid_buf ((\<lambda>_. [])(0 := [Fin (- 1), Fin 2, NaN, NInf, PInf])) (0, 1) 4 \<and>
   (\<exists>h'. relu (0, 1) 4 ((\<lambda>_. [])(0 := [Fin (- 1), Fin 2, NaN, NInf, PInf])) = Inr h' \<and>
      cell h' (0, 0) = Fin (- 1) \<and> cell h' (0, 1) = Fin 2 \<and> cell h' (0, 2) = Fin 0 \<and>
      cell h' (0, 3) = Fin 0 \<and> cell h' (0, 4) = PInf)"
proof -
  let ?h = "(\<lambda>_. [])(0 := [Fin (- 1), Fin 2, NaN, NInf, PInf])"
  have v: "valid_buf ?h (0, 1) 4"
    by (simp add: valid_buf_def)
  from relu_correct [OF v] obtain h' where r: "relu (0, 1) 4 ?h = Inr h'"
    and c: "\<forall>i<4. cell h' (idx (0, 1) i)
              = (if flt (cell ?h (idx (0, 1) i)) (Fin 0) then Fin 0
                 else if cell ?h (idx (0, 1) i) = NaN then Fin 0 else cell ?h (idx (0, 1) i))"
    and f: "\<forall>q. fst q \<noteq> fst (0 :: nat, 1 :: nat) \<or> snd q < snd (0 :: nat, 1 :: nat)
              \<or> snd (0 :: nat, 1 :: nat) + 4 \<le> snd q \<longrightarrow> cell h' q = cell ?h q"
    by blast
  have i: "idx (0 :: nat, 1 :: nat) 0 = (0, 1)" "idx (0 :: nat, 1 :: nat) 1 = (0, 2)"
    "idx (0 :: nat, 1 :: nat) 2 = (0, 3)" "idx (0 :: nat, 1 :: nat) 3 = (0, 4)"
    by (simp_all add: idx_def)
  from c [rule_format, of 0] have "cell h' (0, 1) = Fin 2"
    unfolding i by (simp add: cell_def flt_def)
  moreover from c [rule_format, of 1] have "cell h' (0, 2) = Fin 0"
    unfolding i by (simp add: cell_def flt_def)
  moreover from c [rule_format, of 2] have "cell h' (0, 3) = Fin 0"
    unfolding i by (simp add: cell_def flt_def)
  moreover from c [rule_format, of 3] have "cell h' (0, 4) = PInf"
    unfolding i by (simp add: cell_def flt_def)
  moreover from f have "cell h' (0, 0) = Fin (- 1)"
    by (simp add: cell_def)
  ultimately show ?thesis
    using v r by simp
qed

section \<open>Vector addition\<close>

lemma vector_add_run:
  assumes va: "valid_buf h a n" and vb: "valid_buf h b n" and vo: "valid_buf h output n"
    and a: "fst a \<noteq> fst output \<or> snd output \<le> snd a \<or> snd a + n \<le> snd output"
    and b: "fst b \<noteq> fst output \<or> snd output \<le> snd b \<or> snd b + n \<le> snd output"
  shows "vector_add a b output n h
       = Inr (write_buf h output (map (\<lambda>i. fadd (cell h (idx a i)) (cell h (idx b i))) [0..<n]))"
proof -
  let ?f = "\<lambda>i. fadd (cell h (idx a i)) (cell h (idx b i))"
  let ?I = "\<lambda>i s. s = write_buf h output (map ?f [0..<i])"
  let ?body = "\<lambda>i h. case load h (idx a i) of Inl e \<Rightarrow> Inl e
       | Inr x \<Rightarrow> (case load h (idx b i) of Inl e \<Rightarrow> Inl e
       | Inr y \<Rightarrow> store h (idx output i) (fadd x y))"
  have "\<exists>s'. for_range 0 n ?body h = Inr s' \<and> ?I n s'"
  proof (rule for_range_total)
    show "?I 0 h" by simp
  next
    fix i s assume i: "i < n" and s: "?I i s"
    let ?xs = "map ?f [0..<i]"
    have v: "valid_buf h output (Suc (length ?xs))" "valid_buf h output (length ?xs)"
      using vo i by (auto intro: valid_buf_mono)
    have "load s (idx a i) = load h (idx a i)"
      unfolding s using v(2) a i by (intro load_write_buf_out) auto
    then have la: "load s (idx a i) = Inr (cell h (idx a i))"
      using load_valid [OF va i] by simp
    have "load s (idx b i) = load h (idx b i)"
      unfolding s using v(2) b i by (intro load_write_buf_out) auto
    then have lb: "load s (idx b i) = Inr (cell h (idx b i))"
      using load_valid [OF vb i] by simp
    have st: "store s (idx output i) v = Inr (write_buf h output (?xs @ [v]))" for v
      unfolding s using store_write_buf_end [OF v(1), of v] by simp
    show "\<exists>s'. ?body i s = Inr s' \<and> ?I (Suc i) s'"
      by (simp add: la lb st)
  qed simp
  then show ?thesis by (simp add: vector_add_def)
qed

text \<open>
  C9. For every size and all buffers \<open>a\<close> and \<open>b\<close> of that size, \<^verbatim>\<open>vector_add\<close> returns
  normally and leaves in \<open>output[i]\<close> the binary32 sum of \<open>a[i]\<close> and \<open>b[i]\<close> (the values
  before the call: one addition, rounded once, an infinity on overflow), for every \<open>i\<close>
  below the size, also when \<open>output\<close> is \<open>a\<close> or is \<open>b\<close>; an operand that is not the output
  buffer does not overlap it. No cell outside the output buffer changes.
\<close>

theorem vector_add_correct:
  assumes "valid_buf h a n" and "valid_buf h b n" and "valid_buf h output n"
    and "a = output \<or> separate a n output n"
    and "b = output \<or> separate b n output n"
  shows "\<exists>h'. vector_add a b output n h = Inr h' \<and>
     (\<forall>i<n. cell h' (idx output i) = fadd (cell h (idx a i)) (cell h (idx b i))) \<and>
     (\<forall>q. fst q \<noteq> fst output \<or> snd q < snd output \<or> snd output + n \<le> snd q
          \<longrightarrow> cell h' q = cell h q)"
proof -
  let ?xs = "map (\<lambda>i. fadd (cell h (idx a i)) (cell h (idx b i))) [0..<n]"
  have a: "fst a \<noteq> fst output \<or> snd output \<le> snd a \<or> snd a + n \<le> snd output"
    using assms(4) by (auto simp: separate_def)
  have b: "fst b \<noteq> fst output \<or> snd output \<le> snd b \<or> snd b + n \<le> snd output"
    using assms(5) by (auto simp: separate_def)
  have v: "valid_buf h output (length ?xs)"
    using assms(3) by simp
  have "cell (write_buf h output ?xs) (idx output i) = fadd (cell h (idx a i)) (cell h (idx b i))"
    if "i < n" for i
    using cell_write_buf_in [OF v, of i] that by simp
  moreover have "cell (write_buf h output ?xs) q = cell h q"
    if "fst q \<noteq> fst output \<or> snd q < snd output \<or> snd output + n \<le> snd q" for q
    using cell_write_buf_out [OF v, of q] that by simp
  ultimately show ?thesis
    unfolding vector_add_run [OF assms(1-3) a b] by blast
qed

text \<open>
  In place, on \<open>a = [16777216, 0.5, 2 ^ 127]\<close> and \<open>b = [1, 0.25, 2 ^ 127]\<close>: the first sum
  is a tie and rounds to the even \<open>16777216\<close>, the second is exact, the third overflows.
\<close>

theorem vector_add_correct_witness:
  "valid_buf ((\<lambda>_. [])(0 := [Fin 16777216, Fin (1 / 2), Fin (2 ^ 127)],
               1 := [Fin 0, Fin 1, Fin (1 / 4), Fin (2 ^ 127)])) (0, 0) 3 \<and>
   valid_buf ((\<lambda>_. [])(0 := [Fin 16777216, Fin (1 / 2), Fin (2 ^ 127)],
               1 := [Fin 0, Fin 1, Fin (1 / 4), Fin (2 ^ 127)])) (1, 1) 3 \<and>
   separate (1, 1) 3 (0, 0) 3 \<and>
   (\<exists>h'. vector_add (0, 0) (1, 1) (0, 0) 3
           ((\<lambda>_. [])(0 := [Fin 16777216, Fin (1 / 2), Fin (2 ^ 127)],
               1 := [Fin 0, Fin 1, Fin (1 / 4), Fin (2 ^ 127)])) = Inr h' \<and>
      cell h' (0, 0) = Fin 16777216 \<and> cell h' (0, 1) = Fin (3 / 4) \<and> cell h' (0, 2) = PInf \<and>
      cell h' (1, 2) = Fin (1 / 4))"
proof -
  let ?h = "(\<lambda>_. [])(0 := [Fin 16777216, Fin (1 / 2), Fin (2 ^ 127)],
               1 := [Fin 0, Fin 1, Fin (1 / 4), Fin (2 ^ 127)])"
  have v: "valid_buf ?h (0, 0) 3" "valid_buf ?h (1, 1) 3"
    by (simp_all add: valid_buf_def)
  have s: "separate (1 :: nat, 1 :: nat) 3 (0, 0) 3"
    by (simp add: separate_def)
  then have s': "(1 :: nat, 1 :: nat) = (0, 0) \<or> separate (1, 1) 3 (0, 0) 3" ..
  from vector_add_correct [OF v(1) v(2) v(1) _ s']
  obtain h' where r: "vector_add (0, 0) (1, 1) (0, 0) 3 ?h = Inr h'"
    and c: "\<forall>i<3. cell h' (idx (0, 0) i) = fadd (cell ?h (idx (0, 0) i)) (cell ?h (idx (1, 1) i))"
    and f: "\<forall>q. fst q \<noteq> fst (0 :: nat, 0 :: nat) \<or> snd q < snd (0 :: nat, 0 :: nat)
              \<or> snd (0 :: nat, 0 :: nat) + 3 \<le> snd q \<longrightarrow> cell h' q = cell ?h q"
    by blast
  have i: "idx (0 :: nat, 0 :: nat) 1 = (0, 1)" "idx (1 :: nat, 1 :: nat) 0 = (1, 1)"
    "idx (1 :: nat, 1 :: nat) 1 = (1, 2)" "idx (0 :: nat, 0 :: nat) 2 = (0, 2)"
    "idx (1 :: nat, 1 :: nat) 2 = (1, 3)"
    by (simp_all add: idx_def)
  have r34: "rnd (3 / 4) = Fin (3 / 4)"
    using rnd_dyadic [of 3 2] by simp
  have inf: "rnd 340282366920938463463374607431768211456 = PInf"
    by (rule rnd_overflow) simp
  from c [rule_format, of 0] have "cell h' (0, 0) = Fin 16777216"
    by (simp add: i cell_def rnd_tie)
  moreover from c [rule_format, of 1] have "cell h' (0, 1) = Fin (3 / 4)"
    by (simp add: i cell_def r34)
  moreover from c [rule_format, of 2] have "cell h' (0, 2) = PInf"
    by (simp add: i cell_def inf)
  moreover from f [rule_format, of "(1, 2)"] have "cell h' (1, 2) = Fin (1 / 4)"
    by (simp add: cell_def)
  ultimately show ?thesis
    using v s r by simp
qed

section \<open>Matrix-vector product\<close>

lemma zero_loop:
  assumes "valid_buf h output cols"
  shows "for_range 0 cols (\<lambda>j h. store h (idx output j) (Fin 0)) h
       = Inr (write_buf h output (replicate cols (Fin 0)))"
proof -
  let ?I = "\<lambda>j s. s = write_buf h output (replicate j (Fin 0))"
  have "\<exists>s'. for_range 0 cols (\<lambda>j h. store h (idx output j) (Fin 0)) h = Inr s' \<and> ?I cols s'"
  proof (rule for_range_total)
    fix j s assume j: "j < cols" and s: "?I j s"
    have "valid_buf h output (Suc (length (replicate j (Fin 0))))"
      using assms j by (auto intro: valid_buf_mono)
    from store_write_buf_end [OF this, of "Fin 0"]
    show "\<exists>s'. store s (idx output j) (Fin 0) = Inr s' \<and> ?I (Suc j) s'"
      by (simp add: s replicate_append_same)
  qed simp_all
  then show ?thesis by simp
qed

lemma partial_dot_0: "partial_dot W X cols 0 = (\<lambda>j. Fin 0)"
  by (simp add: fun_eq_iff partial_dot_def)

lemma row_loop:
  assumes vw: "valid_buf h weights (rows * cols)" and vi: "valid_buf h input rows"
    and vo: "valid_buf h output cols"
    and sw: "separate output cols weights (rows * cols)" and si: "separate output cols input rows"
    and i: "i < rows"
    and W: "W = read_buf h weights (rows * cols)" and X: "X = read_buf h input rows"
  shows "for_range 0 cols (\<lambda>j h.
            case load h (idx output j) of Inl e \<Rightarrow> Inl e
            | Inr acc \<Rightarrow>
           (case load h (idx weights (i * cols + j)) of Inl e \<Rightarrow> Inl e
            | Inr w \<Rightarrow>
           (case load h (idx input i) of Inl e \<Rightarrow> Inl e
            | Inr x \<Rightarrow> store h (idx output j) (fadd acc (fmul w x)))))
           (write_buf h output (map (partial_dot W X cols i) [0..<cols]))
       = Inr (write_buf h output (map (partial_dot W X cols (Suc i)) [0..<cols]))"
    (is "for_range 0 cols ?body ?h0 = Inr ?h1")
proof -
  let ?row = "\<lambda>j. map (\<lambda>j'. if j' < j then partial_dot W X cols (Suc i) j'
                          else partial_dot W X cols i j') [0..<cols]"
  let ?I = "\<lambda>j s. s = write_buf h output (?row j)"
  have "\<exists>s'. for_range 0 cols ?body ?h0 = Inr s' \<and> ?I cols s'"
  proof (rule for_range_total [where I = ?I])
    show "?I 0 ?h0" by simp
  next
    fix j s assume j: "j < cols" and s: "?I j s"
    have len: "length (?row j) = cols" by simp
    have v: "valid_buf h output (length (?row j))"
      using vo by simp
    have lo: "load s (idx output j) = Inr (partial_dot W X cols i j)"
      unfolding s using load_write_buf_in [OF v, of j] j by simp
    have sep: "separate output (length (?row j)) weights (rows * cols)"
      "separate output (length (?row j)) input rows"
      using sw si by simp_all
    have lw: "load s (idx weights (i * cols + j)) = Inr (W ! (i * cols + j))"
      using load_other [OF v sep(1) vw index_less [OF i j]] by (simp add: s W)
    have li: "load s (idx input i) = Inr (X ! i)"
      using load_other [OF v sep(2) vi i] by (simp add: s X)
    have upd: "(?row j)[j := fadd (partial_dot W X cols i j) (fmul (W ! (i * cols + j)) (X ! i))] = ?row (Suc j)"
      using j by (intro nth_equalityI) (auto simp: nth_list_update partial_dot_def less_Suc_eq)
    have st: "store s (idx output j) (fadd (partial_dot W X cols i j) (fmul (W ! (i * cols + j)) (X ! i)))
            = Inr (write_buf h output (?row (Suc j)))"
      unfolding s using store_write_buf_in [OF v, of j] j upd by simp
    show "\<exists>s'. ?body j s = Inr s' \<and> ?I (Suc j) s'"
      by (simp add: lo lw li st)
  qed simp
  moreover have "?row cols = map (partial_dot W X cols (Suc i)) [0..<cols]"
    by simp
  ultimately show ?thesis by simp
qed

lemma matvec_multiply_run:
  assumes vw: "valid_buf h weights (rows * cols)" and vi: "valid_buf h input rows"
    and vo: "valid_buf h output cols"
    and sw: "separate output cols weights (rows * cols)" and si: "separate output cols input rows"
  shows "matvec_multiply weights input output rows cols h
       = Inr (write_buf h output
               (matvec_spec (read_buf h weights (rows * cols)) (read_buf h input rows) rows cols))"
proof -
  let ?W = "read_buf h weights (rows * cols)" and ?X = "read_buf h input rows"
  let ?inner = "\<lambda>i j h.
            case load h (idx output j) of Inl e \<Rightarrow> Inl e
            | Inr acc \<Rightarrow>
           (case load h (idx weights (i * cols + j)) of Inl e \<Rightarrow> Inl e
            | Inr w \<Rightarrow>
           (case load h (idx input i) of Inl e \<Rightarrow> Inl e
            | Inr x \<Rightarrow> store h (idx output j) (fadd acc (fmul w x))))"
  let ?I = "\<lambda>i s. s = write_buf h output (map (partial_dot ?W ?X cols i) [0..<cols])"
  let ?h0 = "write_buf h output (replicate cols (Fin 0))"
  have "\<exists>s'. for_range 0 rows (\<lambda>i h. for_range 0 cols (?inner i) h) ?h0 = Inr s' \<and> ?I rows s'"
  proof (rule for_range_total [where I = ?I])
    show "?I 0 ?h0"
      by (simp add: partial_dot_0 map_replicate_const)
  next
    fix i s assume "i < rows" and "?I i s"
    then show "\<exists>s'. for_range 0 cols (?inner i) s = Inr s' \<and> ?I (Suc i) s'"
      using row_loop [OF assms _ refl refl, of i] by simp
  qed simp
  moreover have "map (partial_dot ?W ?X cols rows) [0..<cols] = matvec_spec ?W ?X rows cols"
    by (simp add: matvec_spec_def partial_dot_def [abs_def])
  ultimately show ?thesis
    by (simp add: matvec_multiply_def zero_loop [OF vo])
qed


text \<open>
  C1. For all \<open>rows\<close> and \<open>cols\<close>, every weight table of \<open>rows * cols\<close> cells and every input
  of \<open>rows\<close> cells, \<^verbatim>\<open>matvec_multiply\<close> returns normally and leaves in \<open>output[j]\<close>, for every
  \<open>j < cols\<close>, the sum over \<open>i < rows\<close> of \<open>weights[i * cols + j] * input[i]\<close> as the code
  accumulates it: in binary32, from \<open>0.0f\<close>, in the order of \<open>i\<close>, every product and every
  partial sum rounded. What the output buffer held before has no effect: started with any
  other contents \<open>ys\<close> of the output buffer, the call ends in the same store. No cell outside
  the output buffer changes. The output buffer overlaps neither the table nor the input.
\<close>

theorem matvec_multiply_correct:
  assumes "valid_buf h weights (rows * cols)" and "valid_buf h input rows"
    and "valid_buf h output cols"
    and "separate output cols weights (rows * cols)" and "separate output cols input rows"
  shows "\<exists>h'. matvec_multiply weights input output rows cols h = Inr h' \<and>
     (\<forall>j<cols. cell h' (idx output j)
        = foldl (\<lambda>acc i. fadd acc (fmul (cell h (idx weights (i * cols + j))) (cell h (idx input i))))
          (Fin 0) [0..<rows]) \<and>
     (\<forall>ys. length ys = cols \<longrightarrow>
        matvec_multiply weights input output rows cols (write_buf h output ys) = Inr h') \<and>
     (\<forall>q. fst q \<noteq> fst output \<or> snd q < snd output \<or> snd output + cols \<le> snd q
          \<longrightarrow> cell h' q = cell h q)"
proof -
  let ?W = "read_buf h weights (rows * cols)" and ?X = "read_buf h input rows"
  let ?zs = "matvec_spec ?W ?X rows cols"
  have len: "length ?zs = cols"
    by (simp add: matvec_spec_def)
  have v: "valid_buf h output (length ?zs)"
    using assms(3) len by simp
  have "cell (write_buf h output ?zs) (idx output j)
      = foldl (\<lambda>acc i. fadd acc (fmul (cell h (idx weights (i * cols + j))) (cell h (idx input i))))
          (Fin 0) [0..<rows]"
    if j: "j < cols" for j
  proof -
    have "fmul (?W ! (i * cols + j)) (?X ! i)
        = fmul (cell h (idx weights (i * cols + j))) (cell h (idx input i))"
      if "i < rows" for i
      using nth_read_buf [OF index_less [OF that j] assms(1)] nth_read_buf [OF that assms(2)]
      by simp
    then have "partial_dot ?W ?X cols rows j
      = foldl (\<lambda>acc i. fadd acc (fmul (cell h (idx weights (i * cols + j))) (cell h (idx input i))))
          (Fin 0) [0..<rows]"
      unfolding partial_dot_def by (intro foldl_cong) simp_all
    then have "?zs ! j
      = foldl (\<lambda>acc i. fadd acc (fmul (cell h (idx weights (i * cols + j))) (cell h (idx input i))))
          (Fin 0) [0..<rows]"
      using j by (simp add: matvec_spec_def)
    with cell_write_buf_in [OF v, of j] j len show ?thesis by simp
  qed
  moreover have "matvec_multiply weights input output rows cols (write_buf h output ys)
      = Inr (write_buf h output ?zs)" if ys: "length ys = cols" for ys
  proof -
    let ?g = "write_buf h output ys"
    have vy: "valid_buf h output (length ys)"
      using assms(3) ys by simp
    have sy: "separate output (length ys) weights (rows * cols)"
      "separate output (length ys) input rows"
      using assms(4,5) ys by simp_all
    have "matvec_multiply weights input output rows cols ?g
        = Inr (write_buf ?g output
                (matvec_spec (read_buf ?g weights (rows * cols)) (read_buf ?g input rows) rows cols))"
      using assms by (intro matvec_multiply_run) (simp_all add: valid_write_buf vy)
    then show ?thesis
      using read_buf_write_buf_other [OF vy sy(1) assms(1)]
        read_buf_write_buf_other [OF vy sy(2) assms(2)]
        write_buf_write_buf [OF vy, of ?zs] len ys
      by simp
  qed
  moreover have "cell (write_buf h output ?zs) q = cell h q"
    if "fst q \<noteq> fst output \<or> snd q < snd output \<or> snd output + cols \<le> snd q" for q
    using cell_write_buf_out [OF v, of q] that len by simp
  ultimately show ?thesis
    unfolding matvec_multiply_run [OF assms] by blast
qed

text \<open>
  Three rows and two columns, input \<open>[1, 1, 1]\<close>: the first column \<open>16777216, 1, - 16777216\<close>
  accumulates to \<open>0\<close>, since \<open>16777216 + 1\<close> rounds to \<open>16777216\<close>; the second column
  \<open>1, 2, 3\<close> accumulates to \<open>6\<close>.
\<close>

theorem matvec_multiply_correct_witness:
  "valid_buf ((\<lambda>_. [])(0 := [Fin 16777216, Fin 1, Fin 1, Fin 2, Fin (- 16777216), Fin 3],
                1 := [Fin 1, Fin 1, Fin 1], 2 := [NaN, PInf])) (0, 0) (3 * 2) \<and>
   valid_buf ((\<lambda>_. [])(0 := [Fin 16777216, Fin 1, Fin 1, Fin 2, Fin (- 16777216), Fin 3],
                1 := [Fin 1, Fin 1, Fin 1], 2 := [NaN, PInf])) (1, 0) 3 \<and>
   valid_buf ((\<lambda>_. [])(0 := [Fin 16777216, Fin 1, Fin 1, Fin 2, Fin (- 16777216), Fin 3],
                1 := [Fin 1, Fin 1, Fin 1], 2 := [NaN, PInf])) (2, 0) 2 \<and>
   separate (2, 0) 2 (0, 0) (3 * 2) \<and> separate (2, 0) 2 (1, 0) 3 \<and>
   (\<exists>h'. matvec_multiply (0, 0) (1, 0) (2, 0) 3 2
            ((\<lambda>_. [])(0 := [Fin 16777216, Fin 1, Fin 1, Fin 2, Fin (- 16777216), Fin 3],
                1 := [Fin 1, Fin 1, Fin 1], 2 := [NaN, PInf])) = Inr h' \<and>
      cell h' (2, 0) = Fin 0 \<and> cell h' (2, 1) = Fin 6 \<and> cell h' (1, 1) = Fin 1)"
proof -
  let ?mem = "(\<lambda>_. [])(0 := [Fin 16777216, Fin 1, Fin 1, Fin 2, Fin (- 16777216), Fin 3],
                1 := [Fin 1, Fin 1, Fin 1], 2 := [NaN, PInf])"
  have v: "valid_buf ?mem (0, 0) (3 * 2)" "valid_buf ?mem (1, 0) 3" "valid_buf ?mem (2, 0) 2"
    by (simp_all add: valid_buf_def)
  have s: "separate (2 :: nat, 0 :: nat) 2 (0, 0) (3 * 2)" "separate (2 :: nat, 0 :: nat) 2 (1, 0) 3"
    by (simp_all add: separate_def)
  from matvec_multiply_correct [OF v s]
  obtain h' where r: "matvec_multiply (0, 0) (1, 0) (2, 0) 3 2 ?mem = Inr h'"
    and c: "\<forall>j<2. cell h' (idx (2, 0) j)
        = foldl (\<lambda>acc i. fadd acc (fmul (cell ?mem (idx (0, 0) (i * 2 + j))) (cell ?mem (idx (1, 0) i))))
            (Fin 0) [0..<3]"
    and f: "\<forall>q. fst q \<noteq> fst (2 :: nat, 0 :: nat) \<or> snd q < snd (2 :: nat, 0 :: nat)
              \<or> snd (2 :: nat, 0 :: nat) + 2 \<le> snd q \<longrightarrow> cell h' q = cell ?mem q"
    by blast
  have u: "[0..<3] = [0, 1, 2]"
    by (simp add: upt_rec)
  have i: "idx (2 :: nat, 0 :: nat) 1 = (2, 1)"
    by (simp add: idx_def)
  from c [rule_format, of 0] have "cell h' (2, 0) = Fin 0"
    by (simp add: u cell_def idx_def rnd_numeral rnd_two_24 rnd_tie)
  moreover from c [rule_format, of 1] have "cell h' (2, 1) = Fin 6"
    unfolding i by (simp add: u cell_def idx_def rnd_numeral)
  moreover from f [rule_format, of "(1, 1)"] have "cell h' (1, 1) = Fin 1"
    by (simp add: cell_def)
  ultimately show ?thesis
    using v s r by simp
qed

section \<open>Dense layer\<close>

lemma bias_loop_vector_add:
  "for_range 0 n (\<lambda>i h.
     case load h (idx output i) of Inl e \<Rightarrow> Inl e
     | Inr acc \<Rightarrow>
    (case load h (idx bias i) of Inl e \<Rightarrow> Inl e
     | Inr b \<Rightarrow> store h (idx output i) (fadd acc b))) h
   = vector_add output bias output n h"
  by (simp add: vector_add_def)

lemma separate_self: "separate p n q m \<Longrightarrow> fst q \<noteq> fst p \<or> snd p \<le> snd q \<or> snd q + m \<le> snd p"
  by (auto simp: separate_def)

lemma dense_forward_run:
  assumes vw: "valid_buf h weights (n * m)" and vi: "valid_buf h input n"
    and vb: "valid_buf h bias m" and vo: "valid_buf h output m"
    and sw: "separate output m weights (n * m)" and si: "separate output m input n"
    and sb: "separate output m bias m"
  shows "dense_forward input weights bias output n m h
       = Inr (write_buf h output
               (dense_spec (read_buf h weights (n * m)) (read_buf h bias m) (read_buf h input n) n m))"
proof -
  let ?zs = "matvec_spec (read_buf h weights (n * m)) (read_buf h input n) n m"
  let ?h1 = "write_buf h output ?zs"
  let ?ys = "map (\<lambda>i. fadd (cell ?h1 (idx output i)) (cell ?h1 (idx bias i))) [0..<m]"
  have len: "length ?zs = m"
    by (simp add: matvec_spec_def)
  have v: "valid_buf h output (length ?zs)"
    using vo len by simp
  have v1: "valid_buf ?h1 output m" "valid_buf ?h1 bias m"
    using vo vb by (simp_all add: valid_write_buf [OF v])
  have "vector_add output bias output m ?h1 = Inr (write_buf ?h1 output ?ys)"
    using v1 separate_self [OF sb] by (intro vector_add_run) auto
  moreover have "write_buf ?h1 output ?ys = write_buf h output ?ys"
    using write_buf_write_buf [OF v, of ?ys] len by simp
  moreover have "?ys = dense_spec (read_buf h weights (n * m)) (read_buf h bias m) (read_buf h input n) n m"
    unfolding dense_spec_def
  proof (intro map_cong refl)
    fix j assume "j \<in> set [0..<m]"
    then have j: "j < m" by simp
    have "cell ?h1 (idx output j) = ?zs ! j"
      using cell_write_buf_in [OF v, of j] j len by simp
    moreover have "cell ?h1 (idx bias j) = cell h (idx bias j)"
      using v separate_out [OF _ j, of "output" m bias] sb j len
      by (intro cell_write_buf_out) simp_all
    ultimately show "fadd (cell ?h1 (idx output j)) (cell ?h1 (idx bias j))
        = fadd (partial_dot (read_buf h weights (n * m)) (read_buf h input n) m n j)
            (read_buf h bias m ! j)"
      using nth_read_buf [OF j vb] j by (simp add: matvec_spec_def)
  qed
  ultimately show ?thesis
    by (simp add: dense_forward_def matvec_multiply_run [OF vw vi vo sw si] bias_loop_vector_add)
qed

lemma partial_dot_Suc:
  "partial_dot W X cols (Suc i) j
     = fadd (partial_dot W X cols i j) (fmul (W ! (i * cols + j)) (X ! i))"
  by (simp add: partial_dot_def)

lemma partial_dot_cells:
  assumes "valid_buf h weights (n * m)" and "valid_buf h input n" and "j < m" and "k \<le> n"
  shows "partial_dot (read_buf h weights (n * m)) (read_buf h input n) m k j
       = foldl (\<lambda>acc i. fadd acc (fmul (cell h (idx weights (i * m + j))) (cell h (idx input i))))
           (Fin 0) [0..<k]"
  unfolding partial_dot_def
proof (intro foldl_cong refl)
  fix acc i assume "i \<in> set [0..<k]"
  then have i: "i < n" using assms(4) by simp
  show "fadd acc (fmul (read_buf h weights (n * m) ! (i * m + j)) (read_buf h input n ! i))
      = fadd acc (fmul (cell h (idx weights (i * m + j))) (cell h (idx input i)))"
    using nth_read_buf [OF index_less [OF i assms(3)] assms(1)] nth_read_buf [OF i assms(2)]
    by simp
qed

lemma partial_dot_zero:
  assumes "\<And>i. i < k \<Longrightarrow> W ! (i * cols + j) = Fin 0 \<and> finite32 (X ! i)"
  shows "partial_dot W X cols k j = Fin 0"
  using assms
proof (induction k)
  case 0
  show ?case by (simp add: partial_dot_def)
next
  case (Suc k)
  have "partial_dot W X cols k j = Fin 0"
    using Suc.prems by (intro Suc.IH) simp
  moreover have "W ! (k * cols + j) = Fin 0" "finite32 (X ! k)"
    using Suc.prems [of k] by simp_all
  ultimately show ?case
    by (cases "X ! k") (simp_all add: partial_dot_Suc)
qed

lemma fadd_zero_left: "representable b \<Longrightarrow> fadd (Fin 0) b = b"
  by (cases b) simp_all

text \<open>
  C7. For all sizes, tables, biases and inputs, \<^verbatim>\<open>dense_forward\<close> returns normally and is
  \<^verbatim>\<open>matvec_multiply\<close> into \<open>output\<close> followed by the elementwise addition of \<open>bias\<close> into
  \<open>output\<close> (the in-place \<^verbatim>\<open>vector_add\<close>): \<open>output[j]\<close> is the sum over \<open>i\<close> of
  \<open>weights[i * output_size + j] * input[i]\<close>, accumulated in binary32 from \<open>0.0f\<close> in the order
  of \<open>i\<close>, plus \<open>bias[j]\<close>, rounded again, with no activation applied. With an all-zero table
  and an input without infinity and NaN the output buffer ends equal to the bias vector, the
  cells of which are binary32 values. No cell outside the output buffer changes. The output
  buffer overlaps none of table, input and bias.
\<close>

theorem dense_forward_correct:
  assumes "valid_buf h weights (n * m)" and "valid_buf h input n"
    and "valid_buf h bias m" and "valid_buf h output m"
    and "separate output m weights (n * m)" and "separate output m input n"
    and "separate output m bias m"
  shows "\<exists>h'. dense_forward input weights bias output n m h = Inr h' \<and>
     (\<exists>h1. matvec_multiply weights input output n m h = Inr h1 \<and>
           vector_add output bias output m h1 = Inr h') \<and>
     (\<forall>j<m. cell h' (idx output j)
        = fadd (foldl (\<lambda>acc i. fadd acc (fmul (cell h (idx weights (i * m + j))) (cell h (idx input i))))
                  (Fin 0) [0..<n])
            (cell h (idx bias j))) \<and>
     ((\<forall>k<n * m. cell h (idx weights k) = Fin 0) \<and> (\<forall>i<n. finite32 (cell h (idx input i))) \<and>
      (\<forall>j<m. representable (cell h (idx bias j))) \<longrightarrow>
        read_buf h' output m = read_buf h bias m) \<and>
     (\<forall>q. fst q \<noteq> fst output \<or> snd q < snd output \<or> snd output + m \<le> snd q
          \<longrightarrow> cell h' q = cell h q)"
proof -
  let ?W = "read_buf h weights (n * m)" and ?X = "read_buf h input n" and ?B = "read_buf h bias m"
  let ?zs = "dense_spec ?W ?B ?X n m"
  let ?dot = "\<lambda>j. foldl (\<lambda>acc i. fadd acc (fmul (cell h (idx weights (i * m + j))) (cell h (idx input i))))
                  (Fin 0) [0..<n]"
  have len: "length ?zs = m"
    by (simp add: dense_spec_def)
  have v: "valid_buf h output (length ?zs)"
    using assms(4) len by simp
  have run: "dense_forward input weights bias output n m h = Inr (write_buf h output ?zs)"
    by (rule dense_forward_run [OF assms])
  have mv: "matvec_multiply weights input output n m h
      = Inr (write_buf h output (matvec_spec ?W ?X n m))"
    by (rule matvec_multiply_run [OF assms(1,2,4,5,6)])
  have comp: "vector_add output bias output m (write_buf h output (matvec_spec ?W ?X n m))
      = Inr (write_buf h output ?zs)"
    using run by (simp add: dense_forward_def mv bias_loop_vector_add)
  have nth: "?zs ! j = fadd (?dot j) (cell h (idx bias j))" if j: "j < m" for j
    using j nth_read_buf [OF j assms(3)] partial_dot_cells [OF assms(1,2) j order_refl]
    by (simp add: dense_spec_def)
  have cells: "cell (write_buf h output ?zs) (idx output j) = fadd (?dot j) (cell h (idx bias j))"
    if "j < m" for j
    using cell_write_buf_in [OF v, of j] that len nth by simp
  have zero: "read_buf (write_buf h output ?zs) output m = ?B"
    if z: "\<forall>k<n * m. cell h (idx weights k) = Fin 0"
      and x: "\<forall>i<n. finite32 (cell h (idx input i))"
      and b: "\<forall>j<m. representable (cell h (idx bias j))"
  proof -
    have "?zs = ?B"
    proof (rule nth_equalityI)
      show "length ?zs = length ?B"
        using len assms(3) by (simp add: length_read_buf)
      fix j assume "j < length ?zs"
      then have j: "j < m" using len by simp
      have "partial_dot ?W ?X m n j = Fin 0"
      proof (rule partial_dot_zero)
        fix i assume i: "i < n"
        show "?W ! (i * m + j) = Fin 0 \<and> finite32 (?X ! i)"
          using nth_read_buf [OF index_less [OF i j] assms(1)] nth_read_buf [OF i assms(2)]
            z index_less [OF i j] x i by simp
      qed
      then have "?zs ! j = fadd (Fin 0) (?B ! j)"
        using j by (simp add: dense_spec_def)
      also have "\<dots> = ?B ! j"
        using b j nth_read_buf [OF j assms(3)] by (intro fadd_zero_left) simp
      finally show "?zs ! j = ?B ! j" .
    qed
    with read_buf_write_buf_same [OF v] len show ?thesis by simp
  qed
  have frame: "cell (write_buf h output ?zs) q = cell h q"
    if "fst q \<noteq> fst output \<or> snd q < snd output \<or> snd output + m \<le> snd q" for q
    using cell_write_buf_out [OF v, of q] that len by simp
  show ?thesis
    unfolding run using mv comp cells zero frame by blast
qed

text \<open>
  One input \<open>1\<close> and the weights \<open>16777216, 3\<close> with the biases \<open>1, 0.5\<close>: the first output is
  \<open>16777216\<close>, the sum \<open>16777217\<close> being no binary32 number, the second is \<open>3.5\<close>. With the
  zero table and the input \<open>- 5\<close> the biases \<open>0.5, +inf\<close> come out as they are.
\<close>

theorem dense_forward_correct_witness:
  "valid_buf ((\<lambda>_. [])(0 := [Fin 16777216, Fin 3], 1 := [Fin 1], 2 := [Fin 1, Fin (1 / 2)],
                3 := [NaN, NaN])) (0, 0) (1 * 2) \<and>
   valid_buf ((\<lambda>_. [])(0 := [Fin 16777216, Fin 3], 1 := [Fin 1], 2 := [Fin 1, Fin (1 / 2)],
                3 := [NaN, NaN])) (1, 0) 1 \<and>
   valid_buf ((\<lambda>_. [])(0 := [Fin 16777216, Fin 3], 1 := [Fin 1], 2 := [Fin 1, Fin (1 / 2)],
                3 := [NaN, NaN])) (2, 0) 2 \<and>
   valid_buf ((\<lambda>_. [])(0 := [Fin 16777216, Fin 3], 1 := [Fin 1], 2 := [Fin 1, Fin (1 / 2)],
                3 := [NaN, NaN])) (3, 0) 2 \<and>
   separate (3, 0) 2 (0, 0) (1 * 2) \<and> separate (3, 0) 2 (1, 0) 1 \<and> separate (3, 0) 2 (2, 0) 2 \<and>
   (\<exists>h'. dense_forward (1, 0) (0, 0) (2, 0) (3, 0) 1 2
            ((\<lambda>_. [])(0 := [Fin 16777216, Fin 3], 1 := [Fin 1], 2 := [Fin 1, Fin (1 / 2)],
                3 := [NaN, NaN])) = Inr h' \<and>
      cell h' (3, 0) = Fin 16777216 \<and> cell h' (3, 1) = Fin (7 / 2)) \<and>
   (\<exists>h'. dense_forward (1, 0) (0, 0) (2, 0) (3, 0) 1 2
            ((\<lambda>_. [])(0 := [Fin 0, Fin 0], 1 := [Fin (- 5)], 2 := [Fin (1 / 2), PInf],
                3 := [NaN, NaN])) = Inr h' \<and>
      read_buf h' (3, 0) 2 = [Fin (1 / 2), PInf])"
proof -
  let ?mem = "(\<lambda>_. [])(0 := [Fin 16777216, Fin 3], 1 := [Fin 1], 2 := [Fin 1, Fin (1 / 2)],
                3 := [NaN, NaN])"
  let ?zer = "(\<lambda>_. [])(0 := [Fin 0, Fin 0], 1 := [Fin (- 5)], 2 := [Fin (1 / 2), PInf],
                3 := [NaN, NaN])"
  have v: "valid_buf ?mem (0, 0) (1 * 2)" "valid_buf ?mem (1, 0) 1" "valid_buf ?mem (2, 0) 2"
    "valid_buf ?mem (3, 0) 2"
    by (simp_all add: valid_buf_def)
  have w: "valid_buf ?zer (0, 0) (1 * 2)" "valid_buf ?zer (1, 0) 1" "valid_buf ?zer (2, 0) 2"
    "valid_buf ?zer (3, 0) 2"
    by (simp_all add: valid_buf_def)
  have s: "separate (3 :: nat, 0 :: nat) 2 (0, 0) (1 * 2)" "separate (3 :: nat, 0 :: nat) 2 (1, 0) 1"
    "separate (3 :: nat, 0 :: nat) 2 (2, 0) 2"
    by (simp_all add: separate_def)
  have i: "idx (3 :: nat, 0 :: nat) 1 = (3, 1)"
    by (simp add: idx_def)
  have r72: "rnd (7 / 2) = Fin (7 / 2)"
    using rnd_dyadic [of 7 1] by simp
  have r12: "rnd (1 / 2) = Fin (1 / 2)"
    using rnd_dyadic [of 1 1] by simp
  from dense_forward_correct [OF v s]
  obtain h' where r: "dense_forward (1, 0) (0, 0) (2, 0) (3, 0) 1 2 ?mem = Inr h'"
    and c: "\<forall>j<2. cell h' (idx (3, 0) j)
        = fadd (foldl (\<lambda>acc i. fadd acc (fmul (cell ?mem (idx (0, 0) (i * 2 + j)))
                  (cell ?mem (idx (1, 0) i)))) (Fin 0) [0..<1])
            (cell ?mem (idx (2, 0) j))"
    by blast
  from c [rule_format, of 0] have "cell h' (3, 0) = Fin 16777216"
    by (simp add: cell_def idx_def rnd_two_24 rnd_tie)
  moreover from c [rule_format, of 1] have "cell h' (3, 1) = Fin (7 / 2)"
    unfolding i by (simp add: cell_def idx_def rnd_numeral r72)
  ultimately have first: "\<exists>h'. dense_forward (1, 0) (0, 0) (2, 0) (3, 0) 1 2 ?mem = Inr h' \<and>
      cell h' (3, 0) = Fin 16777216 \<and> cell h' (3, 1) = Fin (7 / 2)"
    using r by blast
  have z: "\<forall>k<1 * 2. cell ?zer (idx (0, 0) k) = Fin 0"
  proof (intro allI impI)
    fix k :: nat assume "k < 1 * 2"
    then have "k = 0 \<or> k = 1" by arith
    then show "cell ?zer (idx (0, 0) k) = Fin 0"
      by (auto simp: cell_def idx_def)
  qed
  have x: "\<forall>i<1. finite32 (cell ?zer (idx (1, 0) i))"
    by (simp add: cell_def idx_def)
  have b: "\<forall>j<2. representable (cell ?zer (idx (2, 0) j))"
  proof (intro allI impI)
    fix j :: nat assume "j < 2"
    then have "j = 0 \<or> j = 1" by arith
    then show "representable (cell ?zer (idx (2, 0) j))"
      by (auto simp: cell_def idx_def r12)
  qed
  from dense_forward_correct [OF w s]
  obtain g' where r': "dense_forward (1, 0) (0, 0) (2, 0) (3, 0) 1 2 ?zer = Inr g'"
    and e: "(\<forall>k<1 * 2. cell ?zer (idx (0, 0) k) = Fin 0) \<and>
            (\<forall>i<1. finite32 (cell ?zer (idx (1, 0) i))) \<and>
            (\<forall>j<2. representable (cell ?zer (idx (2, 0) j)))
            \<longrightarrow> read_buf g' (3, 0) 2 = read_buf ?zer (2, 0) 2"
    by blast
  from e z x b have "read_buf g' (3, 0) 2 = [Fin (1 / 2), PInf]"
    by (simp add: read_buf_def)
  with r' have second: "\<exists>h'. dense_forward (1, 0) (0, 0) (2, 0) (3, 0) 1 2 ?zer = Inr h' \<and>
      read_buf h' (3, 0) 2 = [Fin (1 / 2), PInf]"
    by blast
  show ?thesis
    using v s first second by blast
qed

text \<open>
  An infinity in the input is not covered: with the zero table the product \<open>0 * inf\<close> is a
  NaN, and the output is a NaN where the bias is \<open>1\<close>.
\<close>

theorem dense_forward_counterexample:
  "dense_forward (1, 0) (0, 0) (2, 0) (3, 0) 1 1
     (no_objects(0 := [Fin 0], 1 := [PInf], 2 := [Fin 1], 3 := [Fin 9]))
   = Inr (no_objects(0 := [Fin 0], 1 := [PInf], 2 := [Fin 1], 3 := [NaN]))"
  by (simp add: dense_forward_def matvec_multiply_def for_range_def load_def store_def idx_def
      no_objects_def fun_eq_iff)

section \<open>Softmax\<close>

lemma max_spec_single [simp]: "max_spec [x] = x"
  by (simp add: max_spec_def)

lemma max_spec_snoc:
  "xs \<noteq> [] \<Longrightarrow> max_spec (xs @ [c]) = (if fgt c (max_spec xs) then c else max_spec xs)"
  by (cases xs) (simp_all add: max_spec_def)

lemma max_loop:
  assumes v: "valid_buf h data n" and n: "0 < n"
  shows "for_range (Suc 0) n (\<lambda>i max_val.
             case load h (idx data i) of Inl e \<Rightarrow> Inl e
             | Inr x \<Rightarrow> Inr (if fgt x max_val then x else max_val)) (cell h data)
       = Inr (max_spec (read_buf h data n))"
    (is "for_range (Suc 0) n ?body _ = _")
proof -
  let ?I = "\<lambda>i m. m = max_spec (read_buf h data i)"
  have "\<exists>m. for_range (Suc 0) n ?body (cell h data) = Inr m \<and> ?I n m"
  proof (rule for_range_total [where I = ?I])
    show "Suc 0 \<le> n" using n by simp
    have "valid_buf h data (Suc 0)"
      using v n by (auto intro: valid_buf_mono)
    from read_buf_Suc [OF this] show "?I (Suc 0) (cell h data)"
      by simp
  next
    fix i m assume i: "Suc 0 \<le> i" "i < n" and m: "?I i m"
    have vi: "valid_buf h data (Suc i)" "valid_buf h data i"
      using v i by (auto intro: valid_buf_mono)
    have ne: "read_buf h data i \<noteq> []"
      using length_read_buf [OF vi(2)] i(1) by auto
    have "max_spec (read_buf h data (Suc i))
        = (if fgt (cell h (idx data i)) m then cell h (idx data i) else m)"
      using max_spec_snoc [OF ne] by (simp add: read_buf_Suc [OF vi(1)] m)
    then show "\<exists>m'. ?body i m = Inr m' \<and> ?I (Suc i) m'"
      by (simp add: load_valid [OF v i(2)])
  qed
  then show ?thesis by simp
qed

lemma fsum_snoc: "fsum (xs @ [x]) = fadd (fsum xs) x"
  by (simp add: fsum_def)

lemma exp_loop:
  assumes v: "valid_buf h data n"
  shows "for_range 0 n (\<lambda>i (h, ssum).
             case load h (idx data i) of Inl e \<Rightarrow> Inl e
             | Inr x \<Rightarrow>
            (case store h (idx data i) (expf (fsub x M)) of Inl e \<Rightarrow> Inl e
             | Inr h' \<Rightarrow> Inr (h', fadd ssum (expf (fsub x M))))) (h, Fin 0)
       = Inr (write_buf h data (map (\<lambda>x. expf (fsub x M)) (read_buf h data n)),
              fsum (map (\<lambda>x. expf (fsub x M)) (read_buf h data n)))"
    (is "for_range 0 n ?body _ = _")
proof -
  let ?es = "\<lambda>i. map (\<lambda>x. expf (fsub x M)) (read_buf h data i)"
  let ?I = "\<lambda>i s. s = (write_buf h data (?es i), fsum (?es i))"
  have "\<exists>s'. for_range 0 n ?body (h, Fin 0) = Inr s' \<and> ?I n s'"
  proof (rule for_range_total [where I = ?I])
    show "?I 0 (h, Fin 0)" by (simp add: fsum_def)
  next
    fix i s assume i: "i < n" and s: "?I i s"
    have vi: "valid_buf h data (Suc i)" "valid_buf h data i"
      using v i by (auto intro: valid_buf_mono)
    have len: "length (?es i) = i"
      using vi by (simp add: length_read_buf)
    have b: "valid_buf h data (Suc (length (?es i)))" "valid_buf h data (length (?es i))"
      using vi len by simp_all
    have "load (write_buf h data (?es i)) (idx data i) = load h (idx data i)"
      using b(2) len by (intro load_write_buf_out) auto
    then have ld: "load (write_buf h data (?es i)) (idx data i) = Inr (cell h (idx data i))"
      using load_valid [OF v i] by simp
    have st: "store (write_buf h data (?es i)) (idx data i) y = Inr (write_buf h data (?es i @ [y]))" for y
      using store_write_buf_end [OF b(1), of y] len by simp
    show "\<exists>s'. ?body i s = Inr s' \<and> ?I (Suc i) s'"
      by (simp add: s ld st read_buf_Suc [OF vi(1)] fsum_snoc)
  qed simp
  then show ?thesis by simp
qed

lemma div_loop:
  assumes v: "valid_buf h data n"
  shows "for_range 0 n (\<lambda>i h.
             case load h (idx data i) of Inl e \<Rightarrow> Inl e
             | Inr x \<Rightarrow> store h (idx data i) (fdiv x S)) h
       = Inr (write_buf h data (map (\<lambda>x. fdiv x S) (read_buf h data n)))"
    (is "for_range 0 n ?body _ = _")
proof -
  let ?qs = "\<lambda>i. map (\<lambda>x. fdiv x S) (read_buf h data i)"
  let ?I = "\<lambda>i s. s = write_buf h data (?qs i)"
  have "\<exists>s'. for_range 0 n ?body h = Inr s' \<and> ?I n s'"
  proof (rule for_range_total [where I = ?I])
    show "?I 0 h" by simp
  next
    fix i s assume i: "i < n" and s: "?I i s"
    have vi: "valid_buf h data (Suc i)" "valid_buf h data i"
      using v i by (auto intro: valid_buf_mono)
    have len: "length (?qs i) = i"
      using vi by (simp add: length_read_buf)
    have b: "valid_buf h data (Suc (length (?qs i)))" "valid_buf h data (length (?qs i))"
      using vi len by simp_all
    have "load (write_buf h data (?qs i)) (idx data i) = load h (idx data i)"
      using b(2) len by (intro load_write_buf_out) auto
    then have ld: "load (write_buf h data (?qs i)) (idx data i) = Inr (cell h (idx data i))"
      using load_valid [OF v i] by simp
    have st: "store (write_buf h data (?qs i)) (idx data i) y = Inr (write_buf h data (?qs i @ [y]))" for y
      using store_write_buf_end [OF b(1), of y] len by simp
    show "\<exists>s'. ?body i s = Inr s' \<and> ?I (Suc i) s'"
      by (simp add: s ld st read_buf_Suc [OF vi(1)])
  qed simp
  then show ?thesis by simp
qed

lemma softmax_run:
  assumes v: "valid_buf h data n" and n: "0 < n"
  shows "softmax expf data n h = Inr (write_buf h data (softmax_spec expf (read_buf h data n)))"
proof -
  let ?xs = "read_buf h data n"
  let ?M = "max_spec ?xs"
  let ?es = "map (\<lambda>x. expf (fsub x ?M)) ?xs"
  let ?S = "fsum ?es"
  let ?h1 = "write_buf h data ?es"
  have ld: "load h data = Inr (cell h data)"
    using load_valid [OF v n] by simp
  have len: "length ?es = n"
    using v by (simp add: length_read_buf)
  have ve: "valid_buf h data (length ?es)"
    using v len by simp
  have v1: "valid_buf ?h1 data n"
    using v by (simp add: valid_write_buf [OF ve])
  have r1: "read_buf ?h1 data n = ?es"
    using read_buf_write_buf_same [OF ve] len by simp
  have "write_buf ?h1 data (map (\<lambda>x. fdiv x ?S) ?es) = write_buf h data (softmax_spec expf ?xs)"
    using write_buf_write_buf [OF ve, of "map (\<lambda>x. fdiv x ?S) ?es"]
    by (simp add: softmax_spec_def exps_spec_def)
  then show ?thesis
    by (simp add: softmax_def ld max_loop [OF v n] exp_loop [OF v] div_loop [OF v1] r1)
qed

lemma length_softmax_spec [simp]: "length (softmax_spec expf xs) = length xs"
  by (simp add: softmax_spec_def exps_spec_def)

subsection \<open>Range and sum of the result\<close>

lemma finite32_iff: "finite32 x \<longleftrightarrow> (\<exists>r. x = Fin r)"
  by (cases x) simp_all

lemma max_spec_finite:
  assumes "xs \<noteq> []" and "\<forall>x\<in>set xs. finite32 x"
  shows "\<exists>m. max_spec xs = Fin m \<and> Fin m \<in> set xs \<and> (\<forall>x\<in>set xs. val x \<le> m)"
  using assms
proof (induction xs rule: rev_induct)
  case Nil
  then show ?case by simp
next
  case (snoc c xs)
  from snoc.prems(2) obtain r where c: "c = Fin r"
    by (auto simp: finite32_iff)
  show ?case
  proof (cases "xs = []")
    case True
    then show ?thesis by (simp add: c)
  next
    case False
    with snoc obtain m where m: "max_spec xs = Fin m" "Fin m \<in> set xs" "\<forall>x\<in>set xs. val x \<le> m"
      by auto
    show ?thesis
    proof (cases "m < r")
      case True
      then have "max_spec (xs @ [c]) = Fin r"
        by (simp add: max_spec_snoc [OF False] m(1) c)
      moreover have "\<forall>x\<in>set (xs @ [c]). val x \<le> r"
        using m(3) True by (auto simp: c)
      ultimately show ?thesis by (simp add: c)
    next
      case False
      then have "max_spec (xs @ [c]) = Fin m"
        by (simp add: max_spec_snoc [OF \<open>xs \<noteq> []\<close>] m(1) c)
      moreover have "\<forall>x\<in>set (xs @ [c]). val x \<le> m"
        using m(3) False by (auto simp: c)
      ultimately show ?thesis using m(2) by simp
    qed
  qed
qed

lemma expf_unit:
  assumes ok: "expf_ok expf" and "v \<le> m"
  shows "\<exists>r. expf (fsub (Fin v) (Fin m)) = Fin r \<and> 0 \<le> r \<and> r \<le> 1"
proof -
  have "v - m \<le> 0" using assms(2) by simp
  from rnd_nonpos [OF this] show ?thesis
  proof
    assume "rnd (v - m) = NInf"
    then show ?thesis using ok by (simp add: fsub_def expf_ok_def)
  next
    assume "\<exists>r. rnd (v - m) = Fin r \<and> r \<le> 0"
    then obtain r where "rnd (v - m) = Fin r" "r \<le> 0" by blast
    then show ?thesis using ok by (simp add: fsub_def expf_ok_def)
  qed
qed

lemma exps_unit:
  assumes ok: "expf_ok expf" and ne: "xs \<noteq> []" and fin: "\<forall>x\<in>set xs. finite32 x"
  shows "(\<forall>e\<in>set (exps_spec expf xs). \<exists>r. e = Fin r \<and> 0 \<le> r \<and> r \<le> 1) \<and>
         Fin 1 \<in> set (exps_spec expf xs)"
proof -
  from max_spec_finite [OF ne fin]
  obtain m where m: "max_spec xs = Fin m" "Fin m \<in> set xs" "\<forall>x\<in>set xs. val x \<le> m"
    by blast
  have "\<exists>r. expf (fsub x (Fin m)) = Fin r \<and> 0 \<le> r \<and> r \<le> 1" if "x \<in> set xs" for x
  proof -
    from fin that obtain v where v: "x = Fin v" by (auto simp: finite32_iff)
    with m(3) that have "v \<le> m" by auto
    from expf_unit [OF ok this] show ?thesis by (simp add: v)
  qed
  moreover have "expf (fsub (Fin m) (Fin m)) = Fin 1"
    using ok by (simp add: fsub_def expf_ok_def)
  then have "Fin 1 \<in> set (exps_spec expf xs)"
    using m(2) by (force simp: exps_spec_def m(1))
  ultimately show ?thesis
    by (auto simp: exps_spec_def m(1))
qed

lemma fsum_unit:
  assumes "\<forall>e\<in>set es. \<exists>r. e = Fin r \<and> 0 \<le> r \<and> r \<le> 1"
  shows "\<exists>s. fsum es = Fin s \<and> 0 \<le> s \<and> s \<le> 16777216 \<and> (Fin 1 \<in> set es \<longrightarrow> 1 \<le> s)"
  using assms
proof (induction es rule: rev_induct)
  case Nil
  show ?case by (simp add: fsum_def)
next
  case (snoc e es)
  from snoc obtain s where s: "fsum es = Fin s" "0 \<le> s" "s \<le> 16777216"
    "Fin 1 \<in> set es \<longrightarrow> 1 \<le> s"
    by auto
  from snoc.prems obtain r where r: "e = Fin r" "0 \<le> r" "r \<le> 1"
    by auto
  have "0 \<le> s + r" "s + r \<le> 16777217"
    using s r by simp_all
  from rnd_sum_step [OF this] obtain t where t: "rnd (s + r) = Fin t" "0 \<le> t" "t \<le> 16777216"
    by blast
  have "1 \<le> t" if "Fin 1 \<in> set (es @ [e])"
  proof -
    from that s(4) r have "1 \<le> s + r"
      using s(2) by auto
    from rnd_ge_1 [OF this] t(1) show ?thesis by simp
  qed
  then show ?case
    using t by (simp add: fsum_snoc s(1) r(1))
qed

lemma sum_val_le_length:
  assumes "\<forall>e\<in>set es. \<exists>r. e = Fin r \<and> 0 \<le> r \<and> r \<le> 1"
  shows "0 \<le> sum_list (map val es) \<and> sum_list (map val es) \<le> real (length es)"
  using assms
proof (induction es)
  case Nil
  show ?case by simp
next
  case (Cons e es)
  then obtain r where "e = Fin r" "0 \<le> r" "r \<le> 1" by auto
  with Cons show ?case by auto
qed

lemma fsum_error:
  assumes unit: "\<forall>e\<in>set es. \<exists>r. e = Fin r \<and> 0 \<le> r \<and> r \<le> 1"
    and len: "length es \<le> N"
    and c: "c = (real N + 2) / 16777216 + 2 powr (- 150)"
    and small: "real N * c \<le> 1"
  shows "\<bar>val (fsum es) - sum_list (map val es)\<bar> \<le> real (length es) * c"
  using unit len
proof (induction es rule: rev_induct)
  case Nil
  show ?case by (simp add: fsum_def)
next
  case (snoc e es)
  let ?T = "sum_list (map val es)"
  have c0: "0 \<le> c"
    unfolding c by simp
  have k: "Suc (length es) \<le> N"
    using snoc.prems(2) by simp
  have unit': "\<forall>e\<in>set es. \<exists>r. e = Fin r \<and> 0 \<le> r \<and> r \<le> 1"
    using snoc.prems(1) by simp
  from snoc.prems(1) obtain r where r: "e = Fin r" "0 \<le> r" "r \<le> 1"
    by auto
  from fsum_unit [OF unit'] obtain s where s: "fsum es = Fin s" "0 \<le> s" "s \<le> 16777216"
    by blast
  have ih: "\<bar>s - ?T\<bar> \<le> real (length es) * c"
    using snoc.IH [OF unit'] k by (simp add: s(1))
  have "real (length es) * c \<le> real N * c"
    using k c0 by (intro mult_right_mono) simp_all
  with small have kc: "real (length es) * c \<le> 1" by linarith
  have T: "?T \<le> real (length es)"
    using sum_val_le_length [OF unit'] by simp
  have sr: "s + r \<le> real N + 2"
    using ih kc T r(3) k by (simp add: abs_le_iff)
  have "0 \<le> s + r" "s + r \<le> 16777217"
    using s r by simp_all
  from rnd_sum_step [OF this] obtain t where t: "rnd (s + r) = Fin t" "t = nearest (s + r)"
    by blast
  have "\<bar>t - (s + r)\<bar> \<le> \<bar>s + r\<bar> / 16777216 + 2 powr (- 150)"
    unfolding t(2) by (rule nearest_rel)
  also have "\<dots> \<le> c"
    unfolding c using sr s(2) r(2) by (simp add: divide_right_mono)
  finally have step: "\<bar>t - (s + r)\<bar> \<le> c" .
  have "\<bar>t - (?T + r)\<bar> \<le> \<bar>t - (s + r)\<bar> + \<bar>s - ?T\<bar>"
    by linarith
  also have "\<dots> \<le> c + real (length es) * c"
    using step ih by linarith
  also have "\<dots> = real (length (es @ [e])) * c"
    by (simp add: algebra_simps)
  finally show ?case
    by (simp add: fsum_snoc s(1) r(1) t(1))
qed

lemma softmax_spec_unit:
  assumes ok: "expf_ok expf" and ne: "xs \<noteq> []" and fin: "\<forall>x\<in>set xs. finite32 x"
  shows "\<forall>p\<in>set (softmax_spec expf xs). \<exists>r. p = Fin r \<and> 0 \<le> r \<and> r \<le> 1"
proof -
  let ?es = "exps_spec expf xs"
  from exps_unit [OF ok ne fin]
  have unit: "\<forall>e\<in>set ?es. \<exists>r. e = Fin r \<and> 0 \<le> r \<and> r \<le> 1" and one: "Fin 1 \<in> set ?es"
    by simp_all
  from fsum_unit [OF unit] one obtain s where s: "fsum ?es = Fin s" "1 \<le> s"
    by blast
  have "\<exists>q. fdiv e (Fin s) = Fin q \<and> 0 \<le> q \<and> q \<le> 1" if "e \<in> set ?es" for e
  proof -
    from unit that obtain r where r: "e = Fin r" "0 \<le> r" "r \<le> 1" by blast
    have "0 \<le> r / s" "r / s \<le> 1"
      using r s(2) by simp_all
    from rnd_unit [OF this] show ?thesis
      using s(2) by (simp add: r(1))
  qed
  then show ?thesis
    by (auto simp: softmax_spec_def s(1))
qed

lemma sum_list_diff_bound:
  fixes f g h :: "'a \<Rightarrow> real"
  assumes "\<forall>x\<in>set xs. \<bar>f x - g x\<bar> \<le> h x"
  shows "\<bar>sum_list (map f xs) - sum_list (map g xs)\<bar> \<le> sum_list (map h xs)"
  using assms
proof (induction xs)
  case Nil
  show ?case by simp
next
  case (Cons x xs)
  then have "\<bar>f x - g x\<bar> \<le> h x"
    and "\<bar>sum_list (map f xs) - sum_list (map g xs)\<bar> \<le> sum_list (map h xs)"
    by simp_all
  then show ?case by simp
qed

lemma sum_list_scaled:
  fixes f :: "'a \<Rightarrow> real"
  shows "sum_list (map (\<lambda>x. f x / s) xs) = sum_list (map f xs) / s"
    and "sum_list (map (\<lambda>x. f x * u + d) xs) = sum_list (map f xs) * u + real (length xs) * d"
  by (induction xs) (simp_all add: add_divide_distrib algebra_simps)

lemma softmax_spec_sum:
  assumes ok: "expf_ok expf" and ne: "xs \<noteq> []" and fin: "\<forall>x\<in>set xs. finite32 x"
    and n: "length xs \<le> 4000"
  shows "\<bar>sum_list (map val (softmax_spec expf xs)) - 1\<bar> \<le> (real (length xs) + 2)\<^sup>2 / 16777216"
proof -
  let ?es = "exps_spec expf xs"
  define k where "k = real (length xs)"
  define u :: real where "u = 1 / 16777216"
  define d :: real where "d = 2 powr (- 150)"
  define c where "c = (k + 2) / 16777216 + d"
  let ?T = "sum_list (map val ?es)"
  have len: "length ?es = length xs"
    by (simp add: exps_spec_def)
  have k: "0 \<le> k" "k \<le> 4000"
    using n by (simp_all add: k_def)
  have d: "0 \<le> d" "d \<le> u / 2"
    using eta_small by (simp_all add: d_def u_def)
  from exps_unit [OF ok ne fin]
  have unit: "\<forall>e\<in>set ?es. \<exists>r. e = Fin r \<and> 0 \<le> r \<and> r \<le> 1" and one: "Fin 1 \<in> set ?es"
    by simp_all
  from fsum_unit [OF unit] one obtain s where s: "fsum ?es = Fin s" "1 \<le> s"
    by blast
  have u0: "0 \<le> u" by (simp add: u_def)
  have cu: "c = (k + 2) * u + d"
    by (simp add: c_def u_def)
  have "(k + 2) * u \<le> 4002 * u"
    using k(2) u0 by (intro mult_right_mono) simp_all
  then have c_le: "c \<le> 4003 * u"
    unfolding cu using d(2) u0 by linarith
  have c0: "0 \<le> c"
    using k d by (simp add: c_def)
  have "k * c \<le> 4000 * (4003 * u)"
    using k c_le c0 by (intro mult_mono) simp_all
  then have small: "k * c \<le> 1"
    by (simp add: u_def)
  have "\<bar>val (fsum ?es) - ?T\<bar> \<le> real (length ?es) * c"
    using small by (intro fsum_error [OF unit, where N = "length xs"])
      (simp_all add: len c_def k_def d_def)
  then have err: "\<bar>s - ?T\<bar> \<le> k * c"
    by (simp add: s(1) len k_def)
  have T: "0 \<le> ?T" "?T \<le> k"
    using sum_val_le_length [OF unit] by (simp_all add: len k_def)
  \<comment> \<open>the quotients\<close>
  have "\<bar>val (fdiv e (Fin s)) - val e / s\<bar> \<le> val e * u + d" if "e \<in> set ?es" for e
  proof -
    from unit that obtain r where r: "e = Fin r" "0 \<le> r" "r \<le> 1" by blast
    have q: "0 \<le> r / s" "r / s \<le> r"
      using r s(2) by (simp_all add: divide_le_eq mult_left_mono [of 1 s r, simplified])
    then have "r / s \<le> 16777217" using r(3) by linarith
    from rnd_sum_step [OF q(1) this] obtain t where t: "rnd (r / s) = Fin t" "t = nearest (r / s)"
      by blast
    have "\<bar>t - r / s\<bar> \<le> \<bar>r / s\<bar> / 16777216 + 2 powr (- 150)"
      unfolding t(2) by (rule nearest_rel)
    also have "\<dots> \<le> r * u + d"
      using q by (simp add: u_def d_def)
    finally show ?thesis
      using s(2) by (simp add: r(1) t(1))
  qed
  then have "\<bar>sum_list (map (\<lambda>e. val (fdiv e (Fin s))) ?es) - sum_list (map (\<lambda>e. val e / s) ?es)\<bar>
      \<le> sum_list (map (\<lambda>e. val e * u + d) ?es)"
    by (intro sum_list_diff_bound) simp
  then have quot: "\<bar>sum_list (map val (softmax_spec expf xs)) - ?T / s\<bar> \<le> ?T * u + k * d"
    by (simp add: sum_list_scaled softmax_spec_def s(1) o_def len k_def)
  \<comment> \<open>the sum against 1\<close>
  have "?T / s - 1 = (?T - s) / s"
    using s(2) by (simp add: field_simps)
  then have "\<bar>?T / s - 1\<bar> = \<bar>?T - s\<bar> / s"
    using s(2) by simp
  also have "\<dots> \<le> \<bar>?T - s\<bar>"
    using s(2) by (simp add: divide_le_eq mult_left_mono [of 1 s "\<bar>?T - s\<bar>", simplified])
  also have "\<dots> \<le> k * c"
    using err by linarith
  finally have one_err: "\<bar>?T / s - 1\<bar> \<le> k * c" .
  have "?T * u \<le> k * u"
    using T(2) by (intro mult_right_mono) (simp_all add: u_def)
  moreover have "k * d \<le> k * (u / 2)"
    using d(2) k(1) by (intro mult_left_mono)
  moreover have "k * c = k * k * u + 2 * (k * u) + k * d"
    unfolding cu by (simp add: algebra_simps)
  moreover have "(k + 2)\<^sup>2 / 16777216 = k * k * u + 4 * (k * u) + 4 * u"
    by (simp add: u_def power2_eq_square algebra_simps)
  ultimately show ?thesis
    using quot one_err u0 unfolding k_def [symmetric] by linarith
qed

text \<open>
  C3. For every non-empty buffer that holds neither an infinity nor a NaN, \<^verbatim>\<open>softmax\<close> returns
  normally; it finds the maximum element, replaces each element \<open>x\<close> by \<open>expf(x - max)\<close>, and
  divides each of these by their sum, accumulated in binary32 from \<open>0.0f\<close> in the order of the
  index. Every element of the result is a finite number in \<open>[0, 1]\<close>, whatever the magnitude
  of the input. The results of a buffer of \<open>n \<le> 4000\<close> elements sum to 1 within
  \<open>(n + 2)\<^sup>2 / 2 ^ 24\<close>, hence within \<open>1e-5\<close> for \<open>n \<le> 10\<close>. All that is asked of \<^verbatim>\<open>expf\<close> is
  \<open>expf_ok\<close>. No cell outside the buffer changes.
\<close>

theorem softmax_correct:
  assumes "valid_buf h data n" and "0 < n" and "expf_ok expf"
    and "\<forall>i<n. finite32 (cell h (idx data i))"
  shows "\<exists>h'. softmax expf data n h = Inr h' \<and>
     (\<exists>m. max_spec (read_buf h data n) = Fin m \<and> (\<exists>i<n. cell h (idx data i) = Fin m) \<and>
          (\<forall>i<n. val (cell h (idx data i)) \<le> m)) \<and>
     (\<forall>i<n. cell h' (idx data i)
            = fdiv (expf (fsub (cell h (idx data i)) (max_spec (read_buf h data n))))
                (fsum (map (\<lambda>x. expf (fsub x (max_spec (read_buf h data n)))) (read_buf h data n)))) \<and>
     (\<forall>i<n. \<exists>p. cell h' (idx data i) = Fin p \<and> 0 \<le> p \<and> p \<le> 1) \<and>
     (n \<le> 4000 \<longrightarrow>
        \<bar>sum_list (map val (read_buf h' data n)) - 1\<bar> \<le> (real n + 2)\<^sup>2 / 16777216) \<and>
     (n \<le> 10 \<longrightarrow> \<bar>sum_list (map val (read_buf h' data n)) - 1\<bar> \<le> 1 / 100000) \<and>
     (\<forall>q. fst q \<noteq> fst data \<or> snd q < snd data \<or> snd data + n \<le> snd q \<longrightarrow> cell h' q = cell h q)"
proof -
  let ?xs = "read_buf h data n"
  let ?ps = "softmax_spec expf ?xs"
  let ?h' = "write_buf h data ?ps"
  have len: "length ?xs = n" "length ?ps = n"
    using assms(1) by (simp_all add: length_read_buf)
  have ne: "?xs \<noteq> []"
    using len(1) assms(2) by auto
  have nth: "?xs ! i = cell h (idx data i)" if "i < n" for i
    using nth_read_buf [OF that assms(1)] .
  have fin: "\<forall>x\<in>set ?xs. finite32 x"
    using assms(4) len(1) nth by (auto simp: in_set_conv_nth)
  have v: "valid_buf h data (length ?ps)"
    using assms(1) len(2) by simp
  have run: "softmax expf data n h = Inr ?h'"
    by (rule softmax_run [OF assms(1,2)])
  have rd: "read_buf ?h' data n = ?ps"
    using read_buf_write_buf_same [OF v] len(2) by simp
  have cells: "cell ?h' (idx data i) = ?ps ! i" if "i < n" for i
    using cell_write_buf_in [OF v, of i] that len(2) by simp
  from max_spec_finite [OF ne fin]
  obtain m where m: "max_spec ?xs = Fin m" "Fin m \<in> set ?xs" "\<forall>x\<in>set ?xs. val x \<le> m"
    by blast
  from m(2) obtain k where "k < n" "?xs ! k = Fin m"
    using len(1) by (auto simp: in_set_conv_nth)
  then have "\<exists>i<n. cell h (idx data i) = Fin m"
    using nth by auto
  moreover have "\<forall>i<n. val (cell h (idx data i)) \<le> m"
    using m(3) nth len(1) by (metis nth_mem)
  ultimately have mx: "\<exists>m. max_spec ?xs = Fin m \<and> (\<exists>i<n. cell h (idx data i) = Fin m) \<and>
          (\<forall>i<n. val (cell h (idx data i)) \<le> m)"
    using m(1) by blast
  have formula: "cell ?h' (idx data i)
            = fdiv (expf (fsub (cell h (idx data i)) (max_spec ?xs)))
                (fsum (map (\<lambda>x. expf (fsub x (max_spec ?xs))) ?xs))" if "i < n" for i
    unfolding cells [OF that] using that len(1) by (simp add: softmax_spec_def exps_spec_def nth)
  have range: "\<exists>p. cell ?h' (idx data i) = Fin p \<and> 0 \<le> p \<and> p \<le> 1" if "i < n" for i
    using softmax_spec_unit [OF assms(3) ne fin] that len(2) by (simp add: cells)
  have tol: "\<bar>sum_list (map val (read_buf ?h' data n)) - 1\<bar> \<le> (real n + 2)\<^sup>2 / 16777216"
    if "n \<le> 4000"
    using softmax_spec_sum [OF assms(3) ne fin] that len(1) by (simp add: rd)
  have tol10: "\<bar>sum_list (map val (read_buf ?h' data n)) - 1\<bar> \<le> 1 / 100000" if "n \<le> 10"
  proof -
    have "(real n + 2)\<^sup>2 \<le> 12\<^sup>2"
      using that by (intro power_mono) simp_all
    then have "(real n + 2)\<^sup>2 / 16777216 \<le> 1 / 100000"
      by simp
    with tol that show ?thesis by simp
  qed
  have frame: "cell ?h' q = cell h q"
    if "fst q \<noteq> fst data \<or> snd q < snd data \<or> snd data + n \<le> snd q" for q
    using cell_write_buf_out [OF v, of q] that len(2) by simp
  show ?thesis
    unfolding run using mx formula range tol tol10 frame by blast
qed

text \<open>
  The stability check of the specification, with the correctly rounded exponential: the
  three cells \<open>1000\<close> become the binary32 number nearest to \<open>1 / 3\<close>, \<^verbatim>\<open>0x3eaaaaab\<close>.
\<close>

theorem softmax_correct_witness:
  "valid_buf ((\<lambda>_. [])(0 := [Fin 7, Fin 1000, Fin 1000, Fin 1000])) (0, 1) 3 \<and>
   (\<exists>h'. softmax expf_rn (0, 1) 3 ((\<lambda>_. [])(0 := [Fin 7, Fin 1000, Fin 1000, Fin 1000])) = Inr h' \<and>
      cell h' (0, 0) = Fin 7 \<and>
      cell h' (0, 1) = Fin (11184811 / 33554432) \<and>
      cell h' (0, 2) = Fin (11184811 / 33554432) \<and>
      cell h' (0, 3) = Fin (11184811 / 33554432))"
proof -
  let ?mem = "(\<lambda>_. [])(0 := [Fin 7, Fin 1000, Fin 1000, Fin 1000])"
  have v: "valid_buf ?mem (0, 1) 3"
    by (simp add: valid_buf_def)
  have fin: "\<forall>i<3. finite32 (cell ?mem (idx (0, 1) i))"
  proof (intro allI impI)
    fix i :: nat assume "i < 3"
    then have "i = 0 \<or> i = 1 \<or> i = 2" by arith
    then show "finite32 (cell ?mem (idx (0, 1) i))"
      by (auto simp: cell_def idx_def)
  qed
  have rd: "read_buf ?mem (0, 1) 3 = [Fin 1000, Fin 1000, Fin 1000]"
    by (simp add: read_buf_def)
  have mx: "max_spec [Fin 1000, Fin 1000, Fin 1000] = Fin 1000"
    by (simp add: max_spec_def)
  have sm: "fsum [Fin 1, Fin 1, Fin 1] = Fin 3"
    by (simp add: fsum_def rnd_numeral)
  from softmax_correct [OF v _ expf_ok_rn fin]
  obtain h' where r: "softmax expf_rn (0, 1) 3 ?mem = Inr h'"
    and c: "\<forall>i<3. cell h' (idx (0, 1) i)
            = fdiv (expf_rn (fsub (cell ?mem (idx (0, 1) i)) (max_spec (read_buf ?mem (0, 1) 3))))
                (fsum (map (\<lambda>x. expf_rn (fsub x (max_spec (read_buf ?mem (0, 1) 3))))
                   (read_buf ?mem (0, 1) 3)))"
    and f: "\<forall>q. fst q \<noteq> fst (0 :: nat, 1 :: nat) \<or> snd q < snd (0 :: nat, 1 :: nat)
              \<or> snd (0 :: nat, 1 :: nat) + 3 \<le> snd q \<longrightarrow> cell h' q = cell ?mem q"
    by auto
  have i: "idx (0 :: nat, 1 :: nat) 0 = (0, 1)" "idx (0 :: nat, 1 :: nat) 1 = (0, 2)"
    "idx (0 :: nat, 1 :: nat) 2 = (0, 3)"
    by (simp_all add: idx_def)
  from c [rule_format, of 0] have "cell h' (0, 1) = Fin (11184811 / 33554432)"
    unfolding i rd mx by (simp add: cell_def fsub_def sm rnd_third)
  moreover from c [rule_format, of 1] have "cell h' (0, 2) = Fin (11184811 / 33554432)"
    unfolding i rd mx by (simp add: cell_def fsub_def sm rnd_third)
  moreover from c [rule_format, of 2] have "cell h' (0, 3) = Fin (11184811 / 33554432)"
    unfolding i rd mx by (simp add: cell_def fsub_def sm rnd_third)
  moreover from f have "cell h' (0, 0) = Fin 7"
    by (simp add: cell_def)
  ultimately show ?thesis
    using v r by simp
qed

text \<open>
  A buffer that holds an infinity is not covered: \<open>inf - inf\<close> is a NaN, and every element of
  the result is a NaN.
\<close>

theorem softmax_counterexample:
  "softmax expf_rn (0, 0) 2 (no_objects(0 := [PInf, Fin 0])) = Inr (no_objects(0 := [NaN, NaN]))"
  by (simp add: softmax_def for_range_def load_def store_def idx_def fsub_def no_objects_def
      numeral_2_eq_2 fun_eq_iff)

text \<open>
  C5 (as the code has it). \<^verbatim>\<open>softmax\<close> has no guard for length 0: it reads \<^verbatim>\<open>data[0]\<close>
  before any test of the length. In a store where the buffer is the only object that has
  cells, so that any access outside the buffer is a fault, the call returns normally exactly
  when the buffer is not empty: for every length of at least 1 it accesses cells of the
  buffer only, whatever the cells hold and whatever \<^verbatim>\<open>expf\<close> returns.
\<close>

theorem softmax_accesses:
  "(\<exists>h'. softmax expf (b, 0) (length xs) ((\<lambda>_. [])(b := xs)) = Inr h') \<longleftrightarrow> xs \<noteq> []"
proof
  assume "\<exists>h'. softmax expf (b, 0) (length xs) ((\<lambda>_. [])(b := xs)) = Inr h'"
  then show "xs \<noteq> []"
    by (auto simp: softmax_def load_def)
next
  assume "xs \<noteq> []"
  then have "valid_buf ((\<lambda>_. [])(b := xs)) (b, 0) (length xs)" "0 < length xs"
    by (simp_all add: valid_buf_def)
  from softmax_run [OF this]
  show "\<exists>h'. softmax expf (b, 0) (length xs) ((\<lambda>_. [])(b := xs)) = Inr h'"
    by blast
qed

theorem softmax_accesses_witness:
  "[Fin 5] \<noteq> [] \<and>
   (\<exists>h'. softmax expf_rn (0, 0) (length [Fin 5]) ((\<lambda>_. [])(0 := [Fin 5])) = Inr h')"
  using softmax_accesses [of expf_rn 0 "[Fin 5]"] by simp

theorem softmax_empty_counterexample:
  "softmax expf_rn (0, 0) 0 no_objects = Inl OutOfBounds"
  by (simp add: softmax_def load_def no_objects_def)

section \<open>Inference\<close>

lemma valid_buf_block: "n \<le> length (h b) \<Longrightarrow> valid_buf h (b, 0) n"
  by (simp add: valid_buf_def)

lemma separate_blocks: "fst p \<noteq> fst q \<Longrightarrow> separate p n q m"
  by (simp add: separate_def)

lemma length_dense_spec [simp]: "length (dense_spec W B X n m) = m"
  by (simp add: dense_spec_def)

lemma length_relu_spec [simp]: "length (relu_spec xs) = length xs"
  by (simp add: relu_spec_def)

lemma length_hidden_spec [simp]: "length (hidden_spec nn input h) = layer1_output_size nn"
  by (simp add: hidden_spec_def)

lemma predict_run:
  assumes lay: "net_layout nn input output h"
    and m1: "layer1_output_size nn \<le> 18" and n2: "layer2_input_size nn \<le> 18"
    and m2: "0 < layer2_output_size nn"
  defines "h2 \<equiv> write_buf h (layer1_output nn, 0) (hidden_spec nn input h)"
  shows "predict expf nn input output h
       = Inr (write_buf h2 output
               (softmax_spec expf (dense_spec
                  (read_buf h (layer2_weights nn) (layer2_input_size nn * layer2_output_size nn))
                  (read_buf h (layer2_bias nn) (layer2_output_size nn))
                  (read_buf h2 (layer1_output nn, 0) (layer2_input_size nn))
                  (layer2_input_size nn) (layer2_output_size nn))))"
proof -
  let ?B = "(layer1_output nn, 0)"
  let ?n1 = "layer1_input_size nn" and ?m1 = "layer1_output_size nn"
  let ?n2 = "layer2_input_size nn" and ?m2 = "layer2_output_size nn"
  let ?W1 = "layer1_weights nn" and ?B1 = "layer1_bias nn"
  let ?W2 = "layer2_weights nn" and ?B2 = "layer2_bias nn"
  let ?ds = "dense_spec (read_buf h ?W1 (?n1 * ?m1)) (read_buf h ?B1 ?m1) (read_buf h input ?n1) ?n1 ?m1"
  let ?h1 = "write_buf h ?B ?ds"
  let ?hid = "hidden_spec nn input h"
  from lay have vw1: "valid_buf h ?W1 (?n1 * ?m1)" and vb1: "valid_buf h ?B1 ?m1"
    and vi: "valid_buf h input ?n1" and len: "length (h (layer1_output nn)) = 18"
    and vw2: "valid_buf h ?W2 (?n2 * ?m2)" and vb2: "valid_buf h ?B2 ?m2"
    and vo: "valid_buf h output ?m2"
    and d: "fst ?W1 \<noteq> layer1_output nn" "fst ?B1 \<noteq> layer1_output nn"
      "fst input \<noteq> layer1_output nn" "fst ?W2 \<noteq> layer1_output nn"
      "fst ?B2 \<noteq> layer1_output nn" "fst output \<noteq> layer1_output nn"
    and sw2: "separate output ?m2 ?W2 (?n2 * ?m2)" and sb2: "separate output ?m2 ?B2 ?m2"
    by (auto simp: net_layout_def)
  have vB: "valid_buf h ?B ?m1" "valid_buf h ?B ?n2"
    using len m1 n2 by (simp_all add: valid_buf_block)
  have vds: "valid_buf h ?B (length ?ds)" "valid_buf h ?B (length ?hid)"
    using vB(1) by simp_all
  \<comment> \<open>layer 1, dense\<close>
  have s1: "dense_forward input ?W1 ?B1 ?B ?n1 ?m1 h = Inr ?h1"
    using vw1 vi vb1 vB(1) d by (intro dense_forward_run separate_blocks) simp_all
  \<comment> \<open>layer 1, ReLU\<close>
  have "relu ?B ?m1 ?h1 = Inr (write_buf ?h1 ?B (relu_spec (read_buf ?h1 ?B ?m1)))"
    using vB(1) by (intro relu_run) (simp add: valid_write_buf [OF vds(1)])
  moreover have "read_buf ?h1 ?B ?m1 = ?ds"
    using read_buf_write_buf_same [OF vds(1)] by simp
  moreover have "write_buf ?h1 ?B (relu_spec ?ds) = h2"
    using write_buf_write_buf [OF vds(1), of "relu_spec ?ds"]
    by (simp add: h2_def hidden_spec_def)
  ultimately have s2: "relu ?B ?m1 ?h1 = Inr h2"
    by simp
  \<comment> \<open>layer 2, dense\<close>
  have v2: "valid_buf h2 p n = valid_buf h p n" for p n
    unfolding h2_def by (rule valid_write_buf [OF vds(2)])
  have r2: "read_buf h2 q n = read_buf h q n" if "fst q \<noteq> layer1_output nn" "valid_buf h q n" for q n
    unfolding h2_def using that
    by (intro read_buf_write_buf_other [OF vds(2)] separate_blocks) simp_all
  let ?d2 = "dense_spec (read_buf h ?W2 (?n2 * ?m2)) (read_buf h ?B2 ?m2) (read_buf h2 ?B ?n2) ?n2 ?m2"
  let ?h3 = "write_buf h2 output ?d2"
  have "dense_forward ?B ?W2 ?B2 output ?n2 ?m2 h2
      = Inr (write_buf h2 output
          (dense_spec (read_buf h2 ?W2 (?n2 * ?m2)) (read_buf h2 ?B2 ?m2) (read_buf h2 ?B ?n2) ?n2 ?m2))"
  proof (rule dense_forward_run)
    show "separate output ?m2 ?B ?n2"
      using d(6) by (intro separate_blocks) simp
  qed (simp_all add: v2 vw2 vb2 vB(2) vo sw2 sb2)
  then have s3: "dense_forward ?B ?W2 ?B2 output ?n2 ?m2 h2 = Inr ?h3"
    using r2 [OF d(4) vw2] r2 [OF d(5) vb2] by simp
  \<comment> \<open>layer 2, softmax\<close>
  have vd2: "valid_buf h2 output (length ?d2)"
    using vo by (simp add: v2)
  have "softmax expf output ?m2 ?h3 = Inr (write_buf ?h3 output (softmax_spec expf (read_buf ?h3 output ?m2)))"
    using vo m2 by (intro softmax_run) (simp_all add: valid_write_buf [OF vd2] v2)
  moreover have "read_buf ?h3 output ?m2 = ?d2"
    using read_buf_write_buf_same [OF vd2] by simp
  moreover have "write_buf ?h3 output (softmax_spec expf ?d2) = write_buf h2 output (softmax_spec expf ?d2)"
    using write_buf_write_buf [OF vd2, of "softmax_spec expf ?d2"] by simp
  ultimately have s4: "softmax expf output ?m2 ?h3 = Inr (write_buf h2 output (softmax_spec expf ?d2))"
    by simp
  show ?thesis
    by (simp add: predict_def s1 s2 s3 s4)
qed

lemma predict_chain:
  assumes lay: "net_layout nn input output h"
    and chain: "layer1_output_size nn = layer2_input_size nn"
    and cap: "layer1_output_size nn \<le> 18" and m2: "0 < layer2_output_size nn"
  shows "predict expf nn input output h
       = Inr (write_buf (write_buf h (layer1_output nn, 0) (hidden_spec nn input h)) output
               (net_output expf nn input h))"
proof -
  have "valid_buf h (layer1_output nn, 0) (length (hidden_spec nn input h))"
    using lay cap by (simp add: net_layout_def valid_buf_block)
  from read_buf_write_buf_same [OF this]
  have "read_buf (write_buf h (layer1_output nn, 0) (hidden_spec nn input h))
          (layer1_output nn, 0) (layer2_input_size nn) = hidden_spec nn input h"
    using chain by simp
  then show ?thesis
    using predict_run [OF lay cap _ m2] chain cap
    by (simp add: net_output_def scores_spec_def)
qed

lemma predict_reads:
  fixes expf :: "f32 \<Rightarrow> f32"
  assumes lay: "net_layout nn input output h"
    and cap: "layer1_output_size nn \<le> 18"
  defines "h' \<equiv> write_buf (write_buf h (layer1_output nn, 0) (hidden_spec nn input h)) output
               (net_output expf nn input h)"
  assumes len: "length (net_output expf nn input h) = layer2_output_size nn"
  shows "read_buf h' output (layer2_output_size nn) = net_output expf nn input h"
    and "read_buf h' (layer1_output nn, 0) (layer1_output_size nn) = hidden_spec nn input h"
proof -
  let ?B = "(layer1_output nn, 0)"
  let ?h2 = "write_buf h ?B (hidden_spec nn input h)"
  have vh: "valid_buf h ?B (length (hidden_spec nn input h))"
    using lay cap by (simp add: net_layout_def valid_buf_block)
  have vo: "valid_buf ?h2 output (length (net_output expf nn input h))"
    using lay len by (simp add: valid_write_buf [OF vh] net_layout_def)
  from read_buf_write_buf_same [OF vo] len
  show "read_buf h' output (layer2_output_size nn) = net_output expf nn input h"
    by (simp add: h'_def)
  have "fst output \<noteq> layer1_output nn"
    using lay by (auto simp: net_layout_def)
  then have "separate output (length (net_output expf nn input h)) ?B (layer1_output_size nn)"
    by (intro separate_blocks) simp
  from read_buf_write_buf_other [OF vo this] read_buf_write_buf_same [OF vh]
  show "read_buf h' ?B (layer1_output_size nn) = hidden_spec nn input h"
    by (simp add: h'_def valid_write_buf [OF vh] vh [simplified])
qed

lemma length_net_output [simp]: "length (net_output expf nn input h) = layer2_output_size nn"
  by (simp add: net_output_def scores_spec_def)

lemma length_scores_spec [simp]: "length (scores_spec nn input h) = layer2_output_size nn"
  by (simp add: scores_spec_def)

lemma net_output_distribution:
  assumes "0 < layer2_output_size nn" and "expf_ok expf"
    and "\<forall>s\<in>set (scores_spec nn input h). finite32 s"
  shows "\<forall>p\<in>set (net_output expf nn input h). \<exists>r. p = Fin r \<and> 0 \<le> r \<and> r \<le> 1"
    and "layer2_output_size nn \<le> 4000 \<Longrightarrow>
      \<bar>sum_list (map val (net_output expf nn input h)) - 1\<bar>
        \<le> (real (layer2_output_size nn) + 2)\<^sup>2 / 16777216"
proof -
  have ne: "scores_spec nn input h \<noteq> []"
    using assms(1) by (simp add: scores_spec_def dense_spec_def)
  show "\<forall>p\<in>set (net_output expf nn input h). \<exists>r. p = Fin r \<and> 0 \<le> r \<and> r \<le> 1"
    unfolding net_output_def by (rule softmax_spec_unit [OF assms(2) ne assms(3)])
  show "\<bar>sum_list (map val (net_output expf nn input h)) - 1\<bar>
        \<le> (real (layer2_output_size nn) + 2)\<^sup>2 / 16777216"
    if "layer2_output_size nn \<le> 4000"
    using softmax_spec_sum [OF assms(2) ne assms(3)] that by (simp add: net_output_def)
qed

text \<open>
  C2. For every network whose layer sizes chain (the output size of layer 1 is the input
  size of layer 2 and at most 18, the capacity of the member array) and that has at least
  one output class, and for every input of \<open>layer1_input_size\<close> cells, \<^verbatim>\<open>predict\<close> returns
  normally. Afterwards the member array holds, in its first \<open>layer1_output_size\<close> cells, the
  ReLU of the dense layer 1 of the input, and the output buffer of the caller holds the
  softmax of the dense layer 2 of that vector, all in binary32. When no score of layer 2 is
  an infinity or a NaN, the output is a probability distribution over the
  \<open>layer2_output_size\<close> classes: every entry is a finite number in \<open>[0, 1]\<close>, and the entries
  of at most 4000 classes sum to 1 within \<open>(n + 2)\<^sup>2 / 2 ^ 24\<close>.
\<close>

theorem predict_correct:
  assumes "net_layout nn input output h"
    and "layer1_output_size nn = layer2_input_size nn"
    and "layer1_output_size nn \<le> 18"
    and "0 < layer2_output_size nn"
  shows "\<exists>h'. predict expf nn input output h = Inr h' \<and>
     read_buf h' (layer1_output nn, 0) (layer1_output_size nn) = hidden_spec nn input h \<and>
     read_buf h' output (layer2_output_size nn)
       = softmax_spec expf (scores_spec nn input h) \<and>
     (expf_ok expf \<and> (\<forall>s\<in>set (scores_spec nn input h). finite32 s) \<longrightarrow>
        (\<forall>p\<in>set (read_buf h' output (layer2_output_size nn)). \<exists>r. p = Fin r \<and> 0 \<le> r \<and> r \<le> 1) \<and>
        (layer2_output_size nn \<le> 4000 \<longrightarrow>
           \<bar>sum_list (map val (read_buf h' output (layer2_output_size nn))) - 1\<bar>
             \<le> (real (layer2_output_size nn) + 2)\<^sup>2 / 16777216))"
proof -
  let ?h' = "write_buf (write_buf h (layer1_output nn, 0) (hidden_spec nn input h)) output
               (net_output expf nn input h)"
  have run: "predict expf nn input output h = Inr ?h'"
    by (rule predict_chain [OF assms])
  have rd: "read_buf ?h' output (layer2_output_size nn) = net_output expf nn input h"
    "read_buf ?h' (layer1_output nn, 0) (layer1_output_size nn) = hidden_spec nn input h"
    using predict_reads [OF assms(1,3), where expf = expf] by simp_all
  have "(\<forall>p\<in>set (net_output expf nn input h). \<exists>r. p = Fin r \<and> 0 \<le> r \<and> r \<le> 1) \<and>
        (layer2_output_size nn \<le> 4000 \<longrightarrow>
           \<bar>sum_list (map val (net_output expf nn input h)) - 1\<bar>
             \<le> (real (layer2_output_size nn) + 2)\<^sup>2 / 16777216)"
    if "expf_ok expf \<and> (\<forall>s\<in>set (scores_spec nn input h). finite32 s)"
    using net_output_distribution [OF assms(4), of expf input h] that by blast
  then show ?thesis
    unfolding run using rd by (simp add: net_output_def)
qed

text \<open>
  Two inputs, two hidden units, two classes: the identity in layer 1, a zero table and the
  biases \<open>3, 3\<close> in layer 2. The hidden vector of the input \<open>[1, 2]\<close> is \<open>[1, 2]\<close> and the output
  is \<open>[0.5, 0.5]\<close>.
\<close>

theorem predict_correct_witness:
  "net_layout
     \<lparr>layer1_weights = (0, 0), layer1_bias = (1, 0), layer1_input_size = 2, layer1_output_size = 2,
      layer2_weights = (2, 0), layer2_bias = (3, 0), layer2_input_size = 2, layer2_output_size = 2,
      layer1_output = 5\<rparr> (4, 0) (6, 0)
     ((\<lambda>_. [])(0 := [Fin 1, Fin 0, Fin 0, Fin 1], 1 := [Fin 0, Fin 0],
        2 := [Fin 0, Fin 0, Fin 0, Fin 0], 3 := [Fin 3, Fin 3], 4 := [Fin 1, Fin 2],
        5 := replicate 18 NaN, 6 := [NaN, PInf])) \<and>
   (\<exists>h'. predict expf_rn
     \<lparr>layer1_weights = (0, 0), layer1_bias = (1, 0), layer1_input_size = 2, layer1_output_size = 2,
      layer2_weights = (2, 0), layer2_bias = (3, 0), layer2_input_size = 2, layer2_output_size = 2,
      layer1_output = 5\<rparr> (4, 0) (6, 0)
     ((\<lambda>_. [])(0 := [Fin 1, Fin 0, Fin 0, Fin 1], 1 := [Fin 0, Fin 0],
        2 := [Fin 0, Fin 0, Fin 0, Fin 0], 3 := [Fin 3, Fin 3], 4 := [Fin 1, Fin 2],
        5 := replicate 18 NaN, 6 := [NaN, PInf])) = Inr h' \<and>
     read_buf h' (5, 0) 2 = [Fin 1, Fin 2] \<and>
     read_buf h' (6, 0) 2 = [Fin (1 / 2), Fin (1 / 2)] \<and>
     \<bar>sum_list (map val (read_buf h' (6, 0) 2)) - 1\<bar> \<le> (real 2 + 2)\<^sup>2 / 16777216)"
proof -
  let ?net = "\<lparr>layer1_weights = (0, 0), layer1_bias = (1, 0), layer1_input_size = 2,
      layer1_output_size = 2, layer2_weights = (2, 0), layer2_bias = (3, 0),
      layer2_input_size = 2, layer2_output_size = 2, layer1_output = 5\<rparr>"
  let ?mem = "(\<lambda>_. [])(0 := [Fin 1, Fin 0, Fin 0, Fin 1], 1 := [Fin 0, Fin 0],
        2 := [Fin 0, Fin 0, Fin 0, Fin 0], 3 := [Fin 3, Fin 3], 4 := [Fin 1, Fin 2],
        5 := replicate 18 NaN, 6 := [NaN, PInf])"
  have lay: "net_layout ?net (4, 0) (6, 0) ?mem"
    by (simp add: net_layout_def valid_buf_def separate_def)
  have u: "[0..<2] = [0, 1]"
    by (simp add: upt_rec)
  have r12: "rnd (1 / 2) = Fin (1 / 2)"
    using rnd_dyadic [of 1 1] by simp
  have hid: "hidden_spec ?net (4, 0) ?mem = [Fin 1, Fin 2]"
    by (simp add: hidden_spec_def relu_spec_def dense_spec_def partial_dot_def read_buf_def u
        rnd_numeral)
  have sc: "scores_spec ?net (4, 0) ?mem = [Fin 3, Fin 3]"
    unfolding scores_spec_def hid
    by (simp add: dense_spec_def partial_dot_def read_buf_def u rnd_numeral)
  have out: "softmax_spec expf_rn [Fin 3, Fin 3] = [Fin (1 / 2), Fin (1 / 2)]"
    by (simp add: softmax_spec_def exps_spec_def max_spec_def fsum_def fsub_def rnd_numeral r12)
  have fin: "expf_ok expf_rn \<and> (\<forall>s\<in>set (scores_spec ?net (4, 0) ?mem). finite32 s)"
    unfolding sc using expf_ok_rn by simp
  from predict_correct [OF lay, of expf_rn]
  obtain h' where run: "predict expf_rn ?net (4, 0) (6, 0) ?mem = Inr h'"
    and h: "read_buf h' (layer1_output ?net, 0) (layer1_output_size ?net)
            = hidden_spec ?net (4, 0) ?mem"
    and p: "read_buf h' (6, 0) (layer2_output_size ?net)
            = softmax_spec expf_rn (scores_spec ?net (4, 0) ?mem)"
    and d: "expf_ok expf_rn \<and> (\<forall>s\<in>set (scores_spec ?net (4, 0) ?mem). finite32 s) \<longrightarrow>
        (\<forall>p\<in>set (read_buf h' (6, 0) (layer2_output_size ?net)). \<exists>r. p = Fin r \<and> 0 \<le> r \<and> r \<le> 1) \<and>
        (layer2_output_size ?net \<le> 4000 \<longrightarrow>
           \<bar>sum_list (map val (read_buf h' (6, 0) (layer2_output_size ?net))) - 1\<bar>
             \<le> (real (layer2_output_size ?net) + 2)\<^sup>2 / 16777216)"
    by auto
  from d fin have "\<bar>sum_list (map val (read_buf h' (6, 0) 2)) - 1\<bar> \<le> (real 2 + 2)\<^sup>2 / 16777216"
    by simp
  moreover from h hid have "read_buf h' (5, 0) 2 = [Fin 1, Fin 2]"
    by simp
  moreover from p sc out have "read_buf h' (6, 0) 2 = [Fin (1 / 2), Fin (1 / 2)]"
    by simp
  ultimately show ?thesis
    using lay run by blast
qed

text \<open>
  An overflow in layer 2 is not covered. One input, one hidden unit and three classes, with
  the weight \<open>1e20f\<close> for the second class: on the input \<open>1e20f\<close> the scores are
  \<open>0, +inf, 0\<close>, and \<^verbatim>\<open>softmax\<close> leaves three NaNs in the output buffer.
\<close>

theorem predict_counterexample:
  "predict expf_rn
     \<lparr>layer1_weights = (0, 0), layer1_bias = (1, 0), layer1_input_size = 1, layer1_output_size = 1,
      layer2_weights = (2, 0), layer2_bias = (3, 0), layer2_input_size = 1, layer2_output_size = 3,
      layer1_output = 5\<rparr> (4, 0) (6, 0)
     (no_objects(0 := [Fin 1], 1 := [Fin 0], 2 := [Fin 0, Fin 100000002004087734272, Fin 0],
        3 := [Fin 0, Fin 0, Fin 0], 4 := [Fin 100000002004087734272],
        5 := replicate 18 (Fin 0), 6 := [Fin 0, Fin 0, Fin 0]))
   = Inr (no_objects(0 := [Fin 1], 1 := [Fin 0], 2 := [Fin 0, Fin 100000002004087734272, Fin 0],
        3 := [Fin 0, Fin 0, Fin 0], 4 := [Fin 100000002004087734272],
        5 := Fin 100000002004087734272 # replicate 17 (Fin 0), 6 := [NaN, NaN, NaN]))"
proof -
  have big: "rnd 100000002004087734272 = Fin 100000002004087734272"
    using rnd_scaled [of 11368684 43] by simp
  have inf: "rnd 10000000400817550870767646659478483369984 = PInf"
    by (rule rnd_overflow) simp
  show ?thesis
    by (simp add: predict_def dense_forward_def matvec_multiply_def relu_def softmax_def
        for_range_def load_def store_def idx_def fsub_def no_objects_def numeral_eq_Suc
        big inf fun_eq_iff)
qed

text \<open>
  C8. \<^verbatim>\<open>predict\<close> is a function of weights, biases and input alone. Take two states \<open>h\<close> and
  \<open>g\<close> of the memory in which the tables, the biases and the input of the call hold the same
  values, and which may differ in everything else: in the member array, as earlier calls on
  the instance have left it, and in the output buffer. The two calls return normally and
  leave the same values in their output buffers, whatever function \<^verbatim>\<open>expf\<close> is.
\<close>

theorem predict_stateless:
  assumes "net_layout nn input output h" and "net_layout nn input' output' g"
    and "layer1_output_size nn = layer2_input_size nn"
    and "layer1_output_size nn \<le> 18"
    and "0 < layer2_output_size nn"
    and "read_buf g (layer1_weights nn) (layer1_input_size nn * layer1_output_size nn)
       = read_buf h (layer1_weights nn) (layer1_input_size nn * layer1_output_size nn)"
    and "read_buf g (layer1_bias nn) (layer1_output_size nn)
       = read_buf h (layer1_bias nn) (layer1_output_size nn)"
    and "read_buf g (layer2_weights nn) (layer2_input_size nn * layer2_output_size nn)
       = read_buf h (layer2_weights nn) (layer2_input_size nn * layer2_output_size nn)"
    and "read_buf g (layer2_bias nn) (layer2_output_size nn)
       = read_buf h (layer2_bias nn) (layer2_output_size nn)"
    and "read_buf g input' (layer1_input_size nn) = read_buf h input (layer1_input_size nn)"
  shows "\<exists>h' g'. predict expf nn input output h = Inr h' \<and> predict expf nn input' output' g = Inr g' \<and>
     read_buf g' output' (layer2_output_size nn) = read_buf h' output (layer2_output_size nn)"
proof -
  have "net_output expf nn input' g = net_output expf nn input h"
    using assms(3,6-10) by (simp add: net_output_def scores_spec_def hidden_spec_def)
  then show ?thesis
    unfolding predict_chain [OF assms(1,3,4,5)] predict_chain [OF assms(2,3,4,5)]
    using predict_reads(1) [OF assms(1,4), where expf = expf]
      predict_reads(1) [OF assms(2,4), where expf = expf]
    by simp
qed

theorem predict_stateless_witness:
  "net_layout
     \<lparr>layer1_weights = (0, 0), layer1_bias = (1, 0), layer1_input_size = 2, layer1_output_size = 2,
      layer2_weights = (2, 0), layer2_bias = (3, 0), layer2_input_size = 2, layer2_output_size = 2,
      layer1_output = 5\<rparr> (4, 0) (6, 0)
     ((\<lambda>_. [])(0 := [Fin 1, Fin 0, Fin 0, Fin 1], 1 := [Fin 0, Fin 0], 2 := [Fin 1, Fin 0, Fin 0, Fin 1], 3 := [Fin 0, Fin 0], 4 := [Fin 1, Fin 2],
        5 := replicate 18 (Fin 0), 6 := [Fin 0, Fin 0])) \<and>
   net_layout
     \<lparr>layer1_weights = (0, 0), layer1_bias = (1, 0), layer1_input_size = 2, layer1_output_size = 2,
      layer2_weights = (2, 0), layer2_bias = (3, 0), layer2_input_size = 2, layer2_output_size = 2,
      layer1_output = 5\<rparr> (4, 0) (6, 0)
     ((\<lambda>_. [])(0 := [Fin 1, Fin 0, Fin 0, Fin 1], 1 := [Fin 0, Fin 0], 2 := [Fin 1, Fin 0, Fin 0, Fin 1], 3 := [Fin 0, Fin 0], 4 := [Fin 1, Fin 2],
        5 := replicate 18 NaN, 6 := [PInf, NaN])) \<and>
   (\<exists>h' g'.
     predict expf_rn
     \<lparr>layer1_weights = (0, 0), layer1_bias = (1, 0), layer1_input_size = 2, layer1_output_size = 2,
      layer2_weights = (2, 0), layer2_bias = (3, 0), layer2_input_size = 2, layer2_output_size = 2,
      layer1_output = 5\<rparr> (4, 0) (6, 0)
     ((\<lambda>_. [])(0 := [Fin 1, Fin 0, Fin 0, Fin 1], 1 := [Fin 0, Fin 0], 2 := [Fin 1, Fin 0, Fin 0, Fin 1], 3 := [Fin 0, Fin 0], 4 := [Fin 1, Fin 2],
        5 := replicate 18 (Fin 0), 6 := [Fin 0, Fin 0])) = Inr h' \<and>
     predict expf_rn
     \<lparr>layer1_weights = (0, 0), layer1_bias = (1, 0), layer1_input_size = 2, layer1_output_size = 2,
      layer2_weights = (2, 0), layer2_bias = (3, 0), layer2_input_size = 2, layer2_output_size = 2,
      layer1_output = 5\<rparr> (4, 0) (6, 0)
     ((\<lambda>_. [])(0 := [Fin 1, Fin 0, Fin 0, Fin 1], 1 := [Fin 0, Fin 0], 2 := [Fin 1, Fin 0, Fin 0, Fin 1], 3 := [Fin 0, Fin 0], 4 := [Fin 1, Fin 2],
        5 := replicate 18 NaN, 6 := [PInf, NaN])) = Inr g' \<and>
     read_buf g' (6, 0) 2 = read_buf h' (6, 0) 2)"
proof -
  let ?nn = "\<lparr>layer1_weights = (0, 0), layer1_bias = (1, 0), layer1_input_size = 2,
      layer1_output_size = 2, layer2_weights = (2, 0), layer2_bias = (3, 0),
      layer2_input_size = 2, layer2_output_size = 2, layer1_output = 5\<rparr>"
  let ?h = "(\<lambda>_. [])(0 := [Fin 1, Fin 0, Fin 0, Fin 1], 1 := [Fin 0, Fin 0], 2 := [Fin 1, Fin 0, Fin 0, Fin 1], 3 := [Fin 0, Fin 0],
      4 := [Fin 1, Fin 2], 5 := replicate 18 (Fin 0), 6 := [Fin 0, Fin 0])"
  let ?g = "(\<lambda>_. [])(0 := [Fin 1, Fin 0, Fin 0, Fin 1], 1 := [Fin 0, Fin 0], 2 := [Fin 1, Fin 0, Fin 0, Fin 1], 3 := [Fin 0, Fin 0],
      4 := [Fin 1, Fin 2], 5 := replicate 18 NaN, 6 := [PInf, NaN])"
  have lay: "net_layout ?nn (4, 0) (6, 0) ?h" "net_layout ?nn (4, 0) (6, 0) ?g"
    by (simp_all add: net_layout_def valid_buf_def separate_def)
  from predict_stateless [OF lay, of expf_rn]
  have "\<exists>h' g'. predict expf_rn ?nn (4, 0) (6, 0) ?h = Inr h' \<and> predict expf_rn ?nn (4, 0) (6, 0) ?g = Inr g' \<and>
     read_buf g' (6, 0) (layer2_output_size ?nn) = read_buf h' (6, 0) (layer2_output_size ?nn)"
    by (simp add: read_buf_def)
  with lay show ?thesis
    by simp
qed


section \<open>The member array between calls\<close>

text \<open>What a call leaves alone: the cells of block \<open>b\<close> from index \<open>k\<close> on.\<close>

lemma store_keeps:
  assumes "store s p v = Inr s'" and "fst p \<noteq> b \<or> snd p < k"
  shows "drop k (s' b) = drop k (s b)"
  using assms by (auto simp: store_def split: if_splits)

lemma relu_keeps:
  assumes "relu data n h = Inr h'" and "fst data \<noteq> b \<or> snd data + n \<le> k"
  shows "drop k (h' b) = drop k (h b)"
proof (rule for_range_keeps [where I = "\<lambda>s. drop k (s b) = drop k (h b)", OF _ _ assms(1) [unfolded relu_def]])
  fix i s s'
  assume "i < n" and I: "drop k (s b) = drop k (h b)"
    and "(case load s (idx data i) of Inl e \<Rightarrow> Inl e
          | Inr x \<Rightarrow> store s (idx data i) (if fgt x (Fin 0) then x else Fin 0)) = Inr s'"
  then obtain v where "store s (idx data i) v = Inr s'"
    by (auto split: sum.splits)
  from store_keeps [OF this, of b k] assms(2) \<open>i < n\<close> I
  show "drop k (s' b) = drop k (h b)"
    by auto
qed simp

lemma matvec_multiply_keeps:
  assumes "matvec_multiply weights input output rows cols h = Inr h'"
    and "fst output \<noteq> b \<or> snd output + cols \<le> k"
  shows "drop k (h' b) = drop k (h b)"
proof -
  let ?I = "\<lambda>s. drop k (s b) = drop k (h b)"
  from assms(1) obtain h0 where
    z: "for_range 0 cols (\<lambda>j h. store h (idx output j) (Fin 0)) h = Inr h0"
    and r: "for_range 0 rows (\<lambda>i h.
          for_range 0 cols (\<lambda>j h.
            case load h (idx output j) of Inl e \<Rightarrow> Inl e
            | Inr acc \<Rightarrow>
           (case load h (idx weights (i * cols + j)) of Inl e \<Rightarrow> Inl e
            | Inr w \<Rightarrow>
           (case load h (idx input i) of Inl e \<Rightarrow> Inl e
            | Inr x \<Rightarrow> store h (idx output j) (fadd acc (fmul w x))))) h) h0 = Inr h'"
    by (auto simp: matvec_multiply_def split: sum.splits)
  have st: "?I s'" if "j < cols" "?I s" "store s (idx output j) v = Inr s'" for j s s' v
    using store_keeps [OF that(3), of b k] assms(2) that(1,2) by auto
  have "?I h0"
    by (rule for_range_keeps [where I = ?I, OF _ _ z]) (auto intro: st)
  moreover have "?I s'" if "?I s" and inner: "for_range 0 cols (\<lambda>j h.
            case load h (idx output j) of Inl e \<Rightarrow> Inl e
            | Inr acc \<Rightarrow>
           (case load h (idx weights (i * cols + j)) of Inl e \<Rightarrow> Inl e
            | Inr w \<Rightarrow>
           (case load h (idx input i) of Inl e \<Rightarrow> Inl e
            | Inr x \<Rightarrow> store h (idx output j) (fadd acc (fmul w x))))) s = Inr s'" for i s s'
    by (rule for_range_keeps [where I = ?I, OF _ that(1) inner])
      (auto split: sum.splits intro: st)
  ultimately show ?thesis
    by (rule for_range_keeps [where I = ?I, OF _ _ r, rotated])
qed

lemma dense_forward_keeps:
  assumes "dense_forward input weights bias output n m h = Inr h'"
    and "fst output \<noteq> b \<or> snd output + m \<le> k"
  shows "drop k (h' b) = drop k (h b)"
proof -
  from assms(1) obtain h1 where mv: "matvec_multiply weights input output n m h = Inr h1"
    and ab: "for_range 0 m (\<lambda>i h.
          case load h (idx output i) of Inl e \<Rightarrow> Inl e
          | Inr acc \<Rightarrow>
         (case load h (idx bias i) of Inl e \<Rightarrow> Inl e
          | Inr b \<Rightarrow> store h (idx output i) (fadd acc b))) h1 = Inr h'"
    by (auto simp: dense_forward_def split: sum.splits)
  have "drop k (h1 b) = drop k (h b)"
    by (rule matvec_multiply_keeps [OF mv assms(2)])
  moreover have "drop k (h' b) = drop k (h1 b)"
  proof (rule for_range_keeps [where I = "\<lambda>s. drop k (s b) = drop k (h1 b)", OF _ _ ab])
    fix i s s'
    assume "i < m" and I: "drop k (s b) = drop k (h1 b)"
      and "(case load s (idx output i) of Inl e \<Rightarrow> Inl e
            | Inr acc \<Rightarrow>
           (case load s (idx bias i) of Inl e \<Rightarrow> Inl e
            | Inr b \<Rightarrow> store s (idx output i) (fadd acc b))) = Inr s'"
    then obtain v where "store s (idx output i) v = Inr s'"
      by (auto split: sum.splits)
    from store_keeps [OF this, of b k] assms(2) \<open>i < m\<close> I
    show "drop k (s' b) = drop k (h1 b)"
      by auto
  qed simp
  ultimately show ?thesis by simp
qed

lemma softmax_keeps:
  assumes "softmax expf data n h = Inr h'" and "fst data \<noteq> b \<or> snd data + n \<le> k"
  shows "drop k (h' b) = drop k (h b)"
proof -
  from assms(1) obtain max_val h1 ssum where
    e: "for_range 0 n (\<lambda>i (h, ssum).
             case load h (idx data i) of Inl e \<Rightarrow> Inl e
             | Inr x \<Rightarrow>
            (case store h (idx data i) (expf (fsub x max_val)) of Inl e \<Rightarrow> Inl e
             | Inr h' \<Rightarrow> Inr (h', fadd ssum (expf (fsub x max_val))))) (h, Fin 0) = Inr (h1, ssum)"
    and d: "for_range 0 n (\<lambda>i h.
             case load h (idx data i) of Inl e \<Rightarrow> Inl e
             | Inr x \<Rightarrow> store h (idx data i) (fdiv x ssum)) h1 = Inr h'"
    by (auto simp: softmax_def split: sum.splits prod.splits)
  have st: "drop k (s' b) = drop k (h b)"
    if "i < n" "drop k (s b) = drop k (h b)" "store s (idx data i) v = Inr s'" for i s s' v
    using store_keeps [OF that(3), of b k] assms(2) that(1,2) by auto
  have "(\<lambda>(s, _). drop k (s b) = drop k (h b)) (h1, ssum)"
    by (rule for_range_keeps [where I = "\<lambda>(s, _). drop k (s b) = drop k (h b)", OF _ _ e])
      (auto split: sum.splits intro: st)
  then have "drop k (h1 b) = drop k (h b)"
    by simp
  then show ?thesis
    by (rule for_range_keeps [where I = "\<lambda>s. drop k (s b) = drop k (h b)", OF _ _ d, rotated])
      (auto split: sum.splits intro: st)
qed

lemma predict_keeps:
  assumes "predict expf nn input output h = Inr h'" and "fst output \<noteq> layer1_output nn"
  shows "drop (layer1_output_size nn) (h' (layer1_output nn))
       = drop (layer1_output_size nn) (h (layer1_output nn))"
proof -
  let ?B = "layer1_output nn" and ?k = "layer1_output_size nn"
  from assms(1) obtain h1 h2 h3 where
    s1: "dense_forward input (layer1_weights nn) (layer1_bias nn) (?B, 0)
             (layer1_input_size nn) ?k h = Inr h1"
    and s2: "relu (?B, 0) ?k h1 = Inr h2"
    and s3: "dense_forward (?B, 0) (layer2_weights nn) (layer2_bias nn) output
             (layer2_input_size nn) (layer2_output_size nn) h2 = Inr h3"
    and s4: "softmax expf output (layer2_output_size nn) h3 = Inr h'"
    by (auto simp: predict_def split: sum.splits)
  have "drop ?k (h1 ?B) = drop ?k (h ?B)"
    by (rule dense_forward_keeps [OF s1]) simp
  moreover have "drop ?k (h2 ?B) = drop ?k (h1 ?B)"
    by (rule relu_keeps [OF s2]) simp
  moreover have "drop ?k (h3 ?B) = drop ?k (h2 ?B)"
    by (rule dense_forward_keeps [OF s3]) (simp add: assms(2))
  moreover have "drop ?k (h' ?B) = drop ?k (h3 ?B)"
    by (rule softmax_keeps [OF s4]) (simp add: assms(2))
  ultimately show ?thesis by simp
qed

lemma predict_calls_keeps:
  assumes "predict_calls expf nn calls h = Inr h'" and "\<forall>c\<in>set calls. fst (snd c) \<noteq> layer1_output nn"
  shows "drop (layer1_output_size nn) (h' (layer1_output nn))
       = drop (layer1_output_size nn) (h (layer1_output nn))"
  using assms
proof (induction calls arbitrary: h)
  case Nil
  then show ?case by simp
next
  case (Cons c cs)
  from Cons.prems(1) obtain h1 where h1: "predict expf nn (fst c) (snd c) h = Inr h1"
    "predict_calls expf nn cs h1 = Inr h'"
    by (auto split: sum.splits)
  from predict_keeps [OF h1(1)] Cons.prems(2) Cons.IH [OF h1(2)] show ?case
    by simp
qed


lemma new_NeuralNetwork_run:
  assumes "length (h this) = 18"
  shows "new_NeuralNetwork this l1_weights l1_bias l1_in l1_out l2_weights l2_bias l2_in l2_out h
       = Inr (\<lparr>layer1_weights = l1_weights, layer1_bias = l1_bias,
              layer1_input_size = l1_in, layer1_output_size = l1_out,
              layer2_weights = l2_weights, layer2_bias = l2_bias,
              layer2_input_size = l2_in, layer2_output_size = l2_out,
              layer1_output = this\<rparr>, h(this := replicate 18 (Fin 0)))"
proof -
  have "valid_buf h (this, 0) 18"
    using assms by (simp add: valid_buf_block)
  from zero_loop [OF this]
  have "for_range 0 18 (\<lambda>i h. store h (this, i) (Fin 0)) h = Inr (write_buf h (this, 0) (replicate 18 (Fin 0)))"
    by (simp add: idx_def)
  moreover have "write_buf h (this, 0) (replicate 18 (Fin 0)) = h(this := replicate 18 (Fin 0))"
    using assms by (simp add: write_buf_def)
  ultimately show ?thesis
    by (simp add: new_NeuralNetwork_def)
qed

lemma net_layout_lengths:
  assumes "\<And>b. length (h' b) = length (h b)"
  shows "net_layout nn input output h' = net_layout nn input output h"
  by (simp add: net_layout_def valid_buf_def assms)

lemma predict_tail:
  assumes lay: "net_layout nn input output h"
    and m1: "layer1_output_size nn \<le> 18" and n2: "layer2_input_size nn \<le> 18"
    and m2: "0 < layer2_output_size nn"
  shows "\<exists>h'. predict expf nn input output h = Inr h' \<and> (\<forall>b. length (h' b) = length (h b)) \<and>
     drop (layer1_output_size nn) (h' (layer1_output nn))
       = drop (layer1_output_size nn) (h (layer1_output nn))"
proof -
  let ?B = "(layer1_output nn, 0)"
  let ?hid = "hidden_spec nn input h"
  let ?h2 = "write_buf h ?B ?hid"
  let ?ps = "softmax_spec expf (dense_spec
                  (read_buf h (layer2_weights nn) (layer2_input_size nn * layer2_output_size nn))
                  (read_buf h (layer2_bias nn) (layer2_output_size nn))
                  (read_buf ?h2 ?B (layer2_input_size nn))
                  (layer2_input_size nn) (layer2_output_size nn))"
  have vh: "valid_buf h ?B (length ?hid)"
    using lay m1 by (simp add: net_layout_def valid_buf_block)
  have vo: "valid_buf ?h2 output (length ?ps)"
    using lay by (simp add: valid_write_buf [OF vh] net_layout_def)
  have ne: "fst output \<noteq> layer1_output nn"
    using lay by (auto simp: net_layout_def)
  have "length (write_buf ?h2 output ?ps b) = length (h b)" for b
    using length_write_buf [OF vo, of b] length_write_buf [OF vh, of b] by simp
  moreover have "write_buf ?h2 output ?ps (layer1_output nn) = ?h2 (layer1_output nn)"
    using ne by simp
  then have "drop (layer1_output_size nn) (write_buf ?h2 output ?ps (layer1_output nn))
       = drop (layer1_output_size nn) (h (layer1_output nn))"
    by (simp add: write_buf_def)
  ultimately show ?thesis
    unfolding predict_run [OF assms] by simp
qed

lemma predict_calls_tail:
  assumes "layer1_output_size nn \<le> 18" and "layer2_input_size nn \<le> 18"
    and "0 < layer2_output_size nn"
    and "\<forall>c\<in>set calls. net_layout nn (fst c) (snd c) h"
  shows "\<exists>h'. predict_calls expf nn calls h = Inr h' \<and>
     drop (layer1_output_size nn) (h' (layer1_output nn))
       = drop (layer1_output_size nn) (h (layer1_output nn))"
  using assms(4)
proof (induction calls arbitrary: h)
  case Nil
  then show ?case by simp
next
  case (Cons c cs)
  from Cons.prems have "net_layout nn (fst c) (snd c) h" by simp
  from predict_tail [OF this assms(1-3)]
  obtain h1 where h1: "predict expf nn (fst c) (snd c) h = Inr h1"
    "\<And>b. length (h1 b) = length (h b)"
    "drop (layer1_output_size nn) (h1 (layer1_output nn))
       = drop (layer1_output_size nn) (h (layer1_output nn))"
    by blast
  have "\<forall>c\<in>set cs. net_layout nn (fst c) (snd c) h1"
    using Cons.prems net_layout_lengths [of h1 h, OF h1(2)] by simp
  from Cons.IH [OF this] h1(1,3) show ?case
    by auto
qed

text \<open>
  C10. The constructor returns normally and leaves all 18 cells of the member array zero.
  After any sequence of \<^verbatim>\<open>predict\<close> calls that have returned, none of them with an output
  buffer inside the member array (which is private to the instance), the cells of the member
  array from index \<open>layer1_output_size\<close> on are still zero: \<^verbatim>\<open>predict\<close> writes the first
  \<open>layer1_output_size\<close> cells only. And the calls do return: with \<open>layer1_output_size\<close> and
  \<open>layer2_input_size\<close> at most 18 and at least one output class, every sequence of calls on
  buffers laid out as the contract asks returns normally. All of this holds whatever the
  buffers hold and whatever \<^verbatim>\<open>expf\<close> returns.
\<close>

theorem intermediate_tail_zero:
  assumes "length (h this) = 18"
  shows "\<exists>nn h0.
     new_NeuralNetwork this l1_weights l1_bias l1_in l1_out l2_weights l2_bias l2_in l2_out h
       = Inr (nn, h0) \<and>
     layer1_output nn = this \<and> layer1_output_size nn = l1_out \<and>
     h0 this = replicate 18 (Fin 0) \<and> tail_zero nn h0 \<and>
     (\<forall>calls h'. (\<forall>c\<in>set calls. fst (snd c) \<noteq> this) \<and> predict_calls expf nn calls h0 = Inr h'
        \<longrightarrow> tail_zero nn h') \<and>
     (l1_out \<le> 18 \<and> l2_in \<le> 18 \<and> 0 < l2_out \<longrightarrow>
        (\<forall>calls. (\<forall>c\<in>set calls. net_layout nn (fst c) (snd c) h0) \<longrightarrow>
           (\<exists>h'. predict_calls expf nn calls h0 = Inr h')))"
proof -
  let ?nn = "\<lparr>layer1_weights = l1_weights, layer1_bias = l1_bias,
              layer1_input_size = l1_in, layer1_output_size = l1_out,
              layer2_weights = l2_weights, layer2_bias = l2_bias,
              layer2_input_size = l2_in, layer2_output_size = l2_out,
              layer1_output = this\<rparr>"
  let ?h0 = "h(this := replicate 18 (Fin 0))"
  have tz: "tail_zero ?nn ?h0"
    by (simp add: tail_zero_def)
  have safe: "tail_zero ?nn h'"
    if "(\<forall>c\<in>set calls. fst (snd c) \<noteq> this) \<and> predict_calls expf ?nn calls ?h0 = Inr h'" for calls h'
    using predict_calls_keeps [of expf ?nn calls ?h0 h'] that tz
    by (simp add: tail_zero_def)
  have live: "\<exists>h'. predict_calls expf ?nn calls ?h0 = Inr h'"
    if "l1_out \<le> 18 \<and> l2_in \<le> 18 \<and> 0 < l2_out"
      and "\<forall>c\<in>set calls. net_layout ?nn (fst c) (snd c) ?h0" for calls
    using predict_calls_tail [of ?nn calls ?h0 expf] that by auto
  from tz safe live show ?thesis
    using assms by (simp add: new_NeuralNetwork_run)
qed

theorem intermediate_tail_zero_witness:
  "length (((\<lambda>_. [])(0 := [Fin 1, Fin 0, Fin 0, Fin 1], 1 := [Fin 0, Fin 0], 2 := [Fin 1, Fin 0, Fin 0, Fin 1], 3 := [Fin 0, Fin 0],
      4 := [Fin 1, Fin 2], 5 := replicate 18 NaN, 6 := [NaN, NaN])) (5 :: nat)) = 18 \<and>
   (\<exists>nn h0 h'.
      new_NeuralNetwork 5 (0, 0) (1, 0) 2 2 (2, 0) (3, 0) 2 2
        ((\<lambda>_. [])(0 := [Fin 1, Fin 0, Fin 0, Fin 1], 1 := [Fin 0, Fin 0], 2 := [Fin 1, Fin 0, Fin 0, Fin 1], 3 := [Fin 0, Fin 0],
           4 := [Fin 1, Fin 2], 5 := replicate 18 NaN, 6 := [NaN, NaN])) = Inr (nn, h0) \<and>
      net_layout nn (4, 0) (6, 0) h0 \<and>
      predict_calls expf_rn nn [((4, 0), (6, 0)), ((4, 0), (6, 0))] h0 = Inr h' \<and>
      drop 2 (h' 5) = replicate 16 (Fin 0))"
proof -
  let ?mem = "(\<lambda>_ :: nat. [])(0 := [Fin 1, Fin 0, Fin 0, Fin 1], 1 := [Fin 0, Fin 0], 2 := [Fin 1, Fin 0, Fin 0, Fin 1],
      3 := [Fin 0, Fin 0], 4 := [Fin 1, Fin 2], 5 := replicate 18 NaN, 6 := [NaN, NaN])"
  let ?cs = "[((4 :: nat, 0 :: nat), (6 :: nat, 0 :: nat)), ((4, 0), (6, 0))]"
  have len: "length (?mem 5) = 18"
    by simp
  from intermediate_tail_zero [of ?mem 5 "(0, 0)" "(1, 0)" 2 2 "(2, 0)" "(3, 0)" 2 2 expf_rn, OF len]
  obtain nn h0 where new: "new_NeuralNetwork 5 (0, 0) (1, 0) 2 2 (2, 0) (3, 0) 2 2 ?mem = Inr (nn, h0)"
    and nn: "layer1_output nn = 5" "layer1_output_size nn = 2"
    and safe: "\<forall>calls h'. (\<forall>c\<in>set calls. fst (snd c) \<noteq> 5) \<and> predict_calls expf_rn nn calls h0 = Inr h'
        \<longrightarrow> tail_zero nn h'"
    and live: "(2 :: nat) \<le> 18 \<and> (2 :: nat) \<le> 18 \<and> (0 :: nat) < 2 \<longrightarrow>
        (\<forall>calls. (\<forall>c\<in>set calls. net_layout nn (fst c) (snd c) h0) \<longrightarrow>
           (\<exists>h'. predict_calls expf_rn nn calls h0 = Inr h'))"
    by blast
  have "new_NeuralNetwork 5 (0, 0) (1, 0) 2 2 (2, 0) (3, 0) 2 2 ?mem
      = Inr (\<lparr>layer1_weights = (0, 0), layer1_bias = (1, 0), layer1_input_size = 2,
               layer1_output_size = 2, layer2_weights = (2, 0), layer2_bias = (3, 0),
               layer2_input_size = 2, layer2_output_size = 2, layer1_output = 5\<rparr>,
             ?mem(5 := replicate 18 (Fin 0)))"
    by (simp add: new_NeuralNetwork_def for_range_def numeral_eq_Suc store_def)
  with new have eq: "nn = \<lparr>layer1_weights = (0, 0), layer1_bias = (1, 0), layer1_input_size = 2,
               layer1_output_size = 2, layer2_weights = (2, 0), layer2_bias = (3, 0),
               layer2_input_size = 2, layer2_output_size = 2, layer1_output = 5\<rparr>"
    "h0 = ?mem(5 := replicate 18 (Fin 0))"
    by simp_all
  have lay: "net_layout nn (4, 0) (6, 0) h0"
    unfolding eq by (simp add: net_layout_def valid_buf_def separate_def)
  then have all: "\<forall>c\<in>set ?cs. net_layout nn (fst c) (snd c) h0"
    by simp
  from live have "\<forall>calls. (\<forall>c\<in>set calls. net_layout nn (fst c) (snd c) h0) \<longrightarrow>
           (\<exists>h'. predict_calls expf_rn nn calls h0 = Inr h')"
    by simp
  with all obtain h' where run: "predict_calls expf_rn nn ?cs h0 = Inr h'"
    by blast
  moreover have "\<forall>c\<in>set ?cs. fst (snd c) \<noteq> 5"
    by simp
  ultimately have "tail_zero nn h'"
    using safe by blast
  with new lay nn len run show ?thesis
    by (auto simp: tail_zero_def)
qed

section \<open>Class prediction\<close>

lemma for_range_1_3:
  "for_range (Suc 0) 3 body s =
     (case body (Suc 0) s of Inl e \<Rightarrow> Inl e
      | Inr s' \<Rightarrow> (case body 2 s' of Inl e \<Rightarrow> Inl e | Inr s'' \<Rightarrow> Inr s''))"
  by (simp add: for_range_def numeral_eq_Suc split: sum.splits)

lemma fgt_irrefl [simp]: "\<not> fgt x x"
  by (cases x) simp_all

lemma fmul_zero_left: "fmul (Fin 0) x = Fin 0 \<or> fmul (Fin 0) x = NaN"
  by (cases x) simp_all

lemma partial_dot_zero_nan:
  assumes "\<And>i. i < k \<Longrightarrow> W ! (i * cols + j) = Fin 0"
  shows "partial_dot W X cols k j = Fin 0 \<or> partial_dot W X cols k j = NaN"
  using assms
proof (induction k)
  case 0
  show ?case by (simp add: partial_dot_def)
next
  case (Suc k)
  have "partial_dot W X cols k j = Fin 0 \<or> partial_dot W X cols k j = NaN"
    using Suc.prems by (intro Suc.IH) simp
  moreover have "W ! (k * cols + j) = Fin 0"
    using Suc.prems [of k] by simp
  ultimately show ?case
    using fmul_zero_left [of "X ! k"] by (auto simp: partial_dot_Suc)
qed

lemma hidden_zero:
  assumes "W = replicate (n * m) (Fin 0)" and "B = replicate m (Fin 0)"
  shows "relu_spec (dense_spec W B X n m) = replicate m (Fin 0)"
proof (rule nth_equalityI)
  show "length (relu_spec (dense_spec W B X n m)) = length (replicate m (Fin 0))"
    by simp
  fix j assume "j < length (relu_spec (dense_spec W B X n m))"
  then have j: "j < m" by simp
  have "partial_dot W X m n j = Fin 0 \<or> partial_dot W X m n j = NaN"
    using assms(1) index_less [OF _ j] by (intro partial_dot_zero_nan) simp
  then show "relu_spec (dense_spec W B X n m) ! j = replicate m (Fin 0) ! j"
    using j assms(2) by (auto simp: relu_spec_def dense_spec_def)
qed

lemma dense_spec_zero:
  assumes "W = replicate (n * m) (Fin 0)" and "B = replicate m (Fin 0)"
    and "\<And>i. i < n \<Longrightarrow> finite32 (X ! i)"
  shows "dense_spec W B X n m = replicate m (Fin 0)"
proof (rule nth_equalityI)
  show "length (dense_spec W B X n m) = length (replicate m (Fin 0))"
    by simp
  fix j assume "j < length (dense_spec W B X n m)"
  then have j: "j < m" by simp
  have "partial_dot W X m n j = Fin 0"
    using assms(1,3) index_less [OF _ j] by (intro partial_dot_zero) simp
  then show "dense_spec W B X n m ! j = replicate m (Fin 0) ! j"
    using j assms(2) by (simp add: dense_spec_def)
qed

lemma softmax_spec_zero3:
  "\<exists>q. softmax_spec expf (replicate 3 (Fin 0)) = [q, q, q] \<and>
       (expf (Fin 0) = Fin 1 \<longrightarrow> q = Fin (11184811 / 33554432))"
  by (simp add: softmax_spec_def exps_spec_def max_spec_def fsum_def fsub_def numeral_3_eq_3
      rnd_numeral rnd_third)

text \<open>The scan of \<^verbatim>\<open>predict_class\<close> over the three cells that \<^verbatim>\<open>predict\<close> has left.\<close>

lemma predict_class_scan:
  assumes run: "predict expf nn input (frame, 0)
                  (h(frame := [fst junk, fst (snd junk), snd (snd junk)])) = Inr h1"
    and v: "valid_buf h1 (frame, 0) 3"
  defines "p \<equiv> read_buf h1 (frame, 0) 3"
  shows "predict_class expf nn input frame junk h
       = Inr (if fgt (p ! 2) (if fgt (p ! 1) (p ! 0) then p ! 1 else p ! 0) then 2
              else if fgt (p ! 1) (p ! 0) then 1 else 0,
              h1(frame := []))"
proof -
  have ld: "load h1 (frame, i) = Inr (p ! i)" if "i < 3" for i
    using load_valid [OF v that] nth_read_buf [OF that v] by (simp add: p_def idx_def)
  have ld0: "load h1 (frame, 0) = Inr (p ! 0)" and ld1: "load h1 (frame, Suc 0) = Inr (p ! 1)"
    and ld2: "load h1 (frame, 2) = Inr (p ! 2)"
    using ld [of 0] ld [of 1] ld [of 2] by simp_all
  show ?thesis
    unfolding predict_class_def run
    by (simp add: ld0 ld1 ld2 for_range_1_3)
qed

lemma argmax3:
  assumes "length p = 3"
  defines "c \<equiv> (if fgt (p ! 2) (if fgt (p ! 1) (p ! 0) then p ! 1 else p ! 0) then 2
                else if fgt (p ! 1) (p ! 0) then 1 else 0 :: int)"
  shows "0 \<le> c \<and> c < 3"
    and "\<forall>i<3. p ! i \<noteq> NaN \<Longrightarrow>
      (\<forall>i<3. \<not> fgt (p ! i) (p ! nat c)) \<and> (\<forall>i<nat c. fgt (p ! nat c) (p ! i))"
proof -
  show "0 \<le> c \<and> c < 3"
    by (simp add: c_def)
  assume n: "\<forall>i<3. p ! i \<noteq> NaN"
  from assms(1) obtain x y z where p: "p = [x, y, z]"
    by (auto simp: numeral_3_eq_3 length_Suc_conv)
  from n have "x \<noteq> NaN" "y \<noteq> NaN" "z \<noteq> NaN"
    using n [rule_format, of 0] n [rule_format, of 1] n [rule_format, of 2] by (simp_all add: p)
  then show "(\<forall>i<3. \<not> fgt (p ! i) (p ! nat c)) \<and> (\<forall>i<nat c. fgt (p ! nat c) (p ! i))"
    unfolding c_def p
    by (cases x; cases y; cases z) (auto simp: less_Suc_eq numeral_3_eq_3 numeral_2_eq_2)
qed

text \<open>
  C4 (as the code has it). \<^verbatim>\<open>predict_class\<close> runs \<^verbatim>\<open>predict\<close> into a local array of three
  floats and scans exactly three entries, whatever the output size of layer 2. For every
  network whose layer 2 has three outputs and every input of \<open>layer1_input_size\<close> cells, it
  returns normally an index in \<open>[0, 3)\<close>. When the three probabilities that \<^verbatim>\<open>predict\<close> has
  left hold no NaN, no element is greater than the one at the index returned, and that one
  is greater than every element before it: the lowest index wins a tie. For 18 hidden units
  and three classes with all weights and all biases zero, every input, an infinity or a NaN
  included, gives class 0, and gives three times the binary32 number nearest to \<open>1 / 3\<close> when
  \<open>expf(0) = 1\<close>.
\<close>

theorem predict_class_correct:
  assumes "net_layout nn input (frame, 0) (h(frame := [fst junk, fst (snd junk), snd (snd junk)]))"
    and "layer1_output_size nn \<le> 18"
    and "layer2_input_size nn \<le> 18"
    and "layer2_output_size nn = 3"
  defines "h0 \<equiv> h(frame := [fst junk, fst (snd junk), snd (snd junk)])"
  shows "\<exists>c h1 h'. predict expf nn input (frame, 0) h0 = Inr h1 \<and>
     predict_class expf nn input frame junk h = Inr (c, h') \<and>
     0 \<le> c \<and> c < 3 \<and>
     ((\<forall>i<3. read_buf h1 (frame, 0) 3 ! i \<noteq> NaN) \<longrightarrow>
        (\<forall>i<3. \<not> fgt (read_buf h1 (frame, 0) 3 ! i) (read_buf h1 (frame, 0) 3 ! nat c)) \<and>
        (\<forall>i<nat c. fgt (read_buf h1 (frame, 0) 3 ! nat c) (read_buf h1 (frame, 0) 3 ! i))) \<and>
     (layer1_output_size nn = 18 \<and> layer2_input_size nn = 18 \<and>
      read_buf h0 (layer1_weights nn) (layer1_input_size nn * 18)
        = replicate (layer1_input_size nn * 18) (Fin 0) \<and>
      read_buf h0 (layer1_bias nn) 18 = replicate 18 (Fin 0) \<and>
      read_buf h0 (layer2_weights nn) (18 * 3) = replicate (18 * 3) (Fin 0) \<and>
      read_buf h0 (layer2_bias nn) 3 = replicate 3 (Fin 0)
      \<longrightarrow> c = 0 \<and>
          (expf (Fin 0) = Fin 1 \<longrightarrow>
             read_buf h1 (frame, 0) 3
               = [Fin (11184811 / 33554432), Fin (11184811 / 33554432),
                  Fin (11184811 / 33554432)]))"
proof -
  let ?B = "(layer1_output nn, 0)"
  let ?h2 = "write_buf h0 ?B (hidden_spec nn input h0)"
  let ?d2 = "dense_spec
      (read_buf h0 (layer2_weights nn) (layer2_input_size nn * layer2_output_size nn))
      (read_buf h0 (layer2_bias nn) (layer2_output_size nn))
      (read_buf ?h2 ?B (layer2_input_size nn))
      (layer2_input_size nn) (layer2_output_size nn)"
  let ?h1 = "write_buf ?h2 (frame, 0) (softmax_spec expf ?d2)"
  let ?p = "read_buf ?h1 (frame, 0) 3"
  let ?c = "if fgt (?p ! 2) (if fgt (?p ! 1) (?p ! 0) then ?p ! 1 else ?p ! 0) then 2
            else if fgt (?p ! 1) (?p ! 0) then 1 else 0 :: int"
  have lay: "net_layout nn input (frame, 0) h0"
    using assms(1) by (simp add: h0_def)
  have run: "predict expf nn input (frame, 0) h0 = Inr ?h1"
    using assms(4) by (intro predict_run [OF lay assms(2,3)]) simp
  have vh: "valid_buf h0 ?B (length (hidden_spec nn input h0))"
    using lay assms(2) by (simp add: net_layout_def valid_buf_block)
  have vo: "valid_buf ?h2 (frame, 0) (length (softmax_spec expf ?d2))"
    using lay by (simp add: valid_write_buf [OF vh] net_layout_def)
  have p: "?p = softmax_spec expf ?d2"
    using read_buf_write_buf_same [OF vo] assms(4) by simp
  have v1: "valid_buf ?h1 (frame, 0) 3"
    using valid_write_buf [OF vo, of "(frame, 0)" 3] vo assms(4) by simp
  have cls: "predict_class expf nn input frame junk h = Inr (?c, ?h1(frame := []))"
    using predict_class_scan [OF run [unfolded h0_def] v1 [unfolded h0_def]] by (simp add: h0_def)
  have len: "length ?p = 3"
    using p assms(4) by simp
  have zero: "?c = 0 \<and> (expf (Fin 0) = Fin 1 \<longrightarrow>
      ?p = [Fin (11184811 / 33554432), Fin (11184811 / 33554432), Fin (11184811 / 33554432)])"
    if z: "layer1_output_size nn = 18 \<and> layer2_input_size nn = 18 \<and>
      read_buf h0 (layer1_weights nn) (layer1_input_size nn * 18)
        = replicate (layer1_input_size nn * 18) (Fin 0) \<and>
      read_buf h0 (layer1_bias nn) 18 = replicate 18 (Fin 0) \<and>
      read_buf h0 (layer2_weights nn) (18 * 3) = replicate (18 * 3) (Fin 0) \<and>
      read_buf h0 (layer2_bias nn) 3 = replicate 3 (Fin 0)"
  proof -
    have "hidden_spec nn input h0 = replicate (layer1_output_size nn) (Fin 0)"
      unfolding hidden_spec_def using z by (intro hidden_zero) simp_all
    then have hid: "hidden_spec nn input h0 = replicate 18 (Fin 0)"
      using z by simp
    have "read_buf ?h2 ?B (length (hidden_spec nn input h0)) = hidden_spec nn input h0"
      by (rule read_buf_write_buf_same [OF vh])
    then have rd: "read_buf ?h2 ?B (layer2_input_size nn) = replicate 18 (Fin 0)"
      using z hid by simp
    have "?d2 = replicate (layer2_output_size nn) (Fin 0)"
      unfolding rd using z assms(4) by (intro dense_spec_zero) simp_all
    then have "?p = softmax_spec expf (replicate 3 (Fin 0))"
      using p assms(4) by simp
    with softmax_spec_zero3 [of expf] obtain q where q: "?p = [q, q, q]"
      "expf (Fin 0) = Fin 1 \<longrightarrow> q = Fin (11184811 / 33554432)"
      by auto
    have "?c = 0"
      unfolding q(1) by simp
    with q show ?thesis
      by simp
  qed
  from run cls argmax3 [OF len] zero show ?thesis
    by blast
qed

text \<open>
  The zero network of 18 hidden units and three classes on the input \<open>[0.5, +inf]\<close>, with the
  correctly rounded exponential.
\<close>

theorem predict_class_correct_witness:
  "net_layout
     \<lparr>layer1_weights = (0, 0), layer1_bias = (1, 0), layer1_input_size = 2,
      layer1_output_size = 18, layer2_weights = (2, 0), layer2_bias = (3, 0),
      layer2_input_size = 18, layer2_output_size = 3, layer1_output = 5\<rparr>
     (4, 0) (6, 0)
     (no_objects(0 := replicate 36 (Fin 0), 1 := replicate 18 (Fin 0), 2 := replicate 54 (Fin 0),
         3 := replicate 3 (Fin 0), 4 := [Fin (1 / 2), PInf], 5 := replicate 18 NaN,
         6 := [Fin 9, NaN, Fin 7])) \<and>
   (\<exists>h1 h'. predict expf_rn
     \<lparr>layer1_weights = (0, 0), layer1_bias = (1, 0), layer1_input_size = 2,
      layer1_output_size = 18, layer2_weights = (2, 0), layer2_bias = (3, 0),
      layer2_input_size = 18, layer2_output_size = 3, layer1_output = 5\<rparr>
     (4, 0) (6, 0)
     (no_objects(0 := replicate 36 (Fin 0), 1 := replicate 18 (Fin 0), 2 := replicate 54 (Fin 0),
         3 := replicate 3 (Fin 0), 4 := [Fin (1 / 2), PInf], 5 := replicate 18 NaN,
         6 := [Fin 9, NaN, Fin 7])) = Inr h1 \<and>
     read_buf h1 (6, 0) 3
       = [Fin (11184811 / 33554432), Fin (11184811 / 33554432), Fin (11184811 / 33554432)] \<and>
     predict_class expf_rn
     \<lparr>layer1_weights = (0, 0), layer1_bias = (1, 0), layer1_input_size = 2,
      layer1_output_size = 18, layer2_weights = (2, 0), layer2_bias = (3, 0),
      layer2_input_size = 18, layer2_output_size = 3, layer1_output = 5\<rparr>
     (4, 0) 6 (Fin 9, NaN, Fin 7)
     (no_objects(0 := replicate 36 (Fin 0), 1 := replicate 18 (Fin 0), 2 := replicate 54 (Fin 0),
         3 := replicate 3 (Fin 0), 4 := [Fin (1 / 2), PInf], 5 := replicate 18 NaN))
       = Inr (0, h'))"
proof -
  let ?net = "\<lparr>layer1_weights = (0, 0), layer1_bias = (1, 0), layer1_input_size = 2,
      layer1_output_size = 18, layer2_weights = (2, 0), layer2_bias = (3, 0),
      layer2_input_size = 18, layer2_output_size = 3, layer1_output = 5\<rparr>"
  let ?mem = "no_objects(0 := replicate 36 (Fin 0), 1 := replicate 18 (Fin 0),
         2 := replicate 54 (Fin 0), 3 := replicate 3 (Fin 0), 4 := [Fin (1 / 2), PInf],
         5 := replicate 18 NaN)"
  let ?jnk = "(Fin 9, NaN, Fin 7)"
  let ?frm = "?mem(6 := [fst ?jnk, fst (snd ?jnk), snd (snd ?jnk)])"
  let ?third = "Fin (11184811 / 33554432)"
  have lay: "net_layout ?net (4, 0) (6, 0) ?frm"
    by (simp add: net_layout_def valid_buf_def separate_def no_objects_def)
  have z: "layer1_output_size ?net = 18 \<and> layer2_input_size ?net = 18 \<and>
      read_buf ?frm (layer1_weights ?net) (layer1_input_size ?net * 18)
        = replicate (layer1_input_size ?net * 18) (Fin 0) \<and>
      read_buf ?frm (layer1_bias ?net) 18 = replicate 18 (Fin 0) \<and>
      read_buf ?frm (layer2_weights ?net) (18 * 3) = replicate (18 * 3) (Fin 0) \<and>
      read_buf ?frm (layer2_bias ?net) 3 = replicate 3 (Fin 0)"
    by (simp add: read_buf_def)
  have e: "expf_rn (Fin 0) = Fin 1"
    by simp
  from predict_class_correct [where nn = ?net and input = "(4, 0)" and frame = 6 and junk = ?jnk
      and h = ?mem and expf = expf_rn, OF lay]
  obtain c h1 h' where p: "predict expf_rn ?net (4, 0) (6, 0) ?frm = Inr h1"
    and r: "predict_class expf_rn ?net (4, 0) 6 ?jnk ?mem = Inr (c, h')"
    and am: "(\<forall>i<3. read_buf h1 (6, 0) 3 ! i \<noteq> NaN) \<longrightarrow>
        (\<forall>i<3. \<not> fgt (read_buf h1 (6, 0) 3 ! i) (read_buf h1 (6, 0) 3 ! nat c)) \<and>
        (\<forall>i<nat c. fgt (read_buf h1 (6, 0) 3 ! nat c) (read_buf h1 (6, 0) 3 ! i))"
    and imp: "layer1_output_size ?net = 18 \<and> layer2_input_size ?net = 18 \<and>
      read_buf ?frm (layer1_weights ?net) (layer1_input_size ?net * 18)
        = replicate (layer1_input_size ?net * 18) (Fin 0) \<and>
      read_buf ?frm (layer1_bias ?net) 18 = replicate 18 (Fin 0) \<and>
      read_buf ?frm (layer2_weights ?net) (18 * 3) = replicate (18 * 3) (Fin 0) \<and>
      read_buf ?frm (layer2_bias ?net) 3 = replicate 3 (Fin 0)
      \<longrightarrow> c = 0 \<and> (expf_rn (Fin 0) = Fin 1 \<longrightarrow> read_buf h1 (6, 0) 3 = [?third, ?third, ?third])"
    by auto
  from imp z e have c: "c = 0" and out: "read_buf h1 (6, 0) 3 = [?third, ?third, ?third]"
    by blast+
  have "\<forall>i<3. read_buf h1 (6, 0) 3 ! i \<noteq> NaN"
    unfolding out by (simp add: less_Suc_eq numeral_3_eq_3)
  with am have "\<forall>i<3. \<not> fgt (read_buf h1 (6, 0) 3 ! i) (read_buf h1 (6, 0) 3 ! nat c)"
    by blast
  from p r out have "\<exists>h1 h'. predict expf_rn ?net (4, 0) (6, 0) ?frm = Inr h1 \<and>
     read_buf h1 (6, 0) 3 = [?third, ?third, ?third] \<and>
     predict_class expf_rn ?net (4, 0) 6 ?jnk ?mem = Inr (0, h')"
    unfolding c by blast
  moreover from lay have "net_layout ?net (4, 0) (6, 0) (?mem(6 := [Fin 9, NaN, Fin 7]))"
    by simp
  ultimately show ?thesis
    by simp
qed

text \<open>
  A network with two classes, as the thermal detector builds it: the third cell of the local
  array is never written, and with the value 1 left there the scan returns class 2.
\<close>

theorem predict_class_counterexample:
  "map_sum id fst
     (predict_class expf_rn
        \<lparr>layer1_weights = (0, 0), layer1_bias = (1, 0), layer1_input_size = 1,
         layer1_output_size = 1, layer2_weights = (2, 0), layer2_bias = (3, 0),
         layer2_input_size = 1, layer2_output_size = 2, layer1_output = 5\<rparr>
        (4, 0) 6 (Fin 0, Fin 0, Fin 1)
        (no_objects(0 := [Fin 0], 1 := [Fin 0], 2 := [Fin 0, Fin 0], 3 := [Fin 0, Fin 0],
           4 := [Fin 0], 5 := replicate 18 (Fin 0))))
   = Inr 2"
proof -
  have r12: "rnd (1 / 2) = Fin (1 / 2)"
    using rnd_dyadic [of 1 1] by simp
  show ?thesis
    by (simp add: predict_class_def predict_def dense_forward_def matvec_multiply_def
        relu_def softmax_def for_range_def load_def store_def idx_def fsub_def
        no_objects_def numeral_eq_Suc rnd_numeral r12)
qed

end
